theory Spec2Isabelle
  imports Main "HOL-Library.AList"
begin

section \<open>JavaScript values used by the processor\<close>

text \<open>
  Strings are ASCII character lists (the addresses, hashes and decimal numbers the
  processor handles are ASCII).  \<open>toLowerCase\<close> maps \<open>A\<close>..\<open>Z\<close> to \<open>a\<close>..\<open>z\<close> and
  leaves every other character alone.
\<close>

definition lower_char :: "char \<Rightarrow> char" where
  "lower_char c =
     (if (65::nat) \<le> of_char c \<and> of_char c \<le> (90::nat)
      then char_of (of_char c + (32::nat)) else c)"

definition toLowerCase :: "string \<Rightarrow> string" where
  "toLowerCase s = map lower_char s"

text \<open>\<open>bigint.toString()\<close>: the decimal digits, with a minus sign for a negative value.\<close>

definition digit_char :: "nat \<Rightarrow> char" where
  "digit_char d = char_of (48 + d)"

fun digits :: "nat \<Rightarrow> string" where
  "digits n = (if n < 10 then [digit_char n] else digits (n div 10) @ [digit_char (n mod 10)])"

declare digits.simps [simp del]

definition toString :: "int \<Rightarrow> string" where
  "toString i = (if i < 0 then CHR ''-'' # digits (nat (- i)) else digits (nat i))"

text \<open>
  An optional string \<open>s?: string\<close> is a \<open>string option\<close>, \<open>None\<close> for \<open>undefined\<close>.
  It is truthy when it is defined and not empty; \<open>s || ""\<close> is \<open>or_empty s\<close>.
\<close>

definition truthy :: "string option \<Rightarrow> bool" where
  "truthy s = (case s of None \<Rightarrow> False | Some x \<Rightarrow> x \<noteq> [])"

definition or_empty :: "string option \<Rightarrow> string" where
  "or_empty s = (case s of None \<Rightarrow> [] | Some x \<Rightarrow> (if x = [] then [] else x))"

text \<open>
  A \<open>Map<string, V>\<close> is an association list in insertion order: \<open>get\<close> is \<^const>\<open>map_of\<close>,
  \<open>set\<close> is \<^const>\<open>AList.update\<close> (it overwrites the value of a key in place and appends a
  new key), \<open>values()\<close> is \<open>map snd\<close>.  \<open>new Map(entries)\<close> sets the entries one by one.
  A \<open>Set<string>\<close> is the list of its members in insertion order.
\<close>

definition Map_new :: "(string \<times> 'v) list \<Rightarrow> (string \<times> 'v) list" where
  "Map_new entries = fold (\<lambda>(k, v) m. AList.update k v m) entries []"

definition Set_add :: "string \<Rightarrow> string list \<Rightarrow> string list" where
  "Set_add x xs = (if x \<in> set xs then xs else xs @ [x])"

section \<open>Entities\<close>

text \<open>
  \<open>owner_ref\<close> and \<open>token_ref\<close> are not fields of the classes: they stand for the identity
  of the JavaScript object, a number drawn from a counter at every \<open>new\<close> and for every
  entity a query returns.  An \<open>Owner\<close> is never mutated, so a reference to one is modelled
  by the value with its identity.  A \<open>Token\<close> is mutated in place; it lives in the working
  map \<open>tokens\<close>, and a \<open>Transfer\<close> refers to it by identity.
\<close>

record Owner =
  owner_ref :: nat
  owner_id :: string

record GoodContract =
  gc_id :: string
  gc_name :: string
  gc_symbol :: string
  gc_totalSupply :: int
  gc_numberField :: int

record BadContract =
  bc_id :: string
  bc_name :: string
  bc_symbol :: string
  bc_totalSupply :: int
  bc_customField :: "string option"

record Token =
  token_ref :: nat
  token_id :: string
  token_owner :: "Owner option"
  token_name :: "string option"
  token_imageURI :: "string option"
  token_uri :: "string option"
  token_expires :: "int option"
  token_contract :: "GoodContract option"

record Transfer =
  transfer_id :: string
  transfer_block :: int
  transfer_timestamp :: int
  transfer_transactionHash :: string
  transfer_from :: Owner
  transfer_to :: Owner
  transfer_token :: nat

text \<open>
  \<open>type ENSData\<close>.  \<open>expires\<close> is a JavaScript number; the decoders fill it from
  \<open>BigNumber.toNumber()\<close>, an integer below \<open>2 ^ 53\<close>, so it is an \<open>int\<close> here.
\<close>

record ENSData =
  ens_id :: string
  ens_from :: "string option"
  ens_to :: "string option"
  ens_tokenId :: int
  ens_timestamp :: int
  ens_expires :: "int option"
  ens_block :: int
  ens_transactionHash :: string

section \<open>The store, the process state and the environment\<close>

text \<open>
  Modelled from the spec: the \<open>Store\<close> of \<open>@subsquid/typeorm-store\<close> is not part of the
  sources.  Following sections 4.5 and 6 of the specification it is a set of tables keyed
  by primary identity (a map from the identity to the row; the owner table, whose rows
  have no attribute, is the set of identities), with a point lookup and an insert for the contract singleton, a
  bulk lookup by a set of identities, and a bulk upsert (insert if absent, overwrite the
  full row if present).  A row holds the attributes of the entity, with a reference to an
  owner or a token stored as the identity it refers to.  Every call is recorded in
  \<open>store_ops\<close>, in the order the calls are issued.  Store calls are taken to succeed.
\<close>

record TokenRow =
  row_owner :: "string option"
  row_name :: "string option"
  row_imageURI :: "string option"
  row_uri :: "string option"
  row_expires :: "int option"
  row_contract :: "GoodContract option"

record TransferRow =
  row_block :: int
  row_timestamp :: int
  row_transactionHash :: string
  row_from :: string
  row_to :: string
  row_token :: "string option"

datatype store_op =
    Get_GoodContract string
  | Insert_GoodContract GoodContract
  | Insert_BadContract BadContract
  | FindBy_Token "string list"
  | FindBy_Owner "string list"
  | Save_Owner "Owner list"
  | Save_Token "Token list"
  | Save_Transfer "Transfer list"

text \<open>
  The state threaded through the processor: the module variable \<open>contractEntity\<close>, the
  store, the allocation counter of object identities, what the process has asked of the
  clock and of the metadata service, the warnings logged, and the three working
  collections of \<open>saveENSData\<close>.
\<close>

record state =
  contractEntity :: "GoodContract option"
  tbl_owner :: "string set"
  tbl_token :: "string \<rightharpoonup> TokenRow"
  tbl_transfer :: "string \<rightharpoonup> TransferRow"
  tbl_good :: "string \<rightharpoonup> GoodContract"
  tbl_bad :: "string \<rightharpoonup> BadContract"
  store_ops :: "store_op list"
  next_ref :: nat
  date_calls :: nat
  http_log :: "string list"
  warnings :: "string list"
  owners :: "(string \<times> Owner) list"
  tokens :: "(string \<times> Token) list"
  transfers :: "Transfer list"

text \<open>
  What \<open>axios.get\<close> can do: throw (an \<open>Error\<close> with a message, as axios does on a network
  error or a non-success status, or some other value), or return a response whose
  \<open>data\<close> is \<open>null\<close>/\<open>undefined\<close> (reading a property of it throws a \<open>TypeError\<close>) or a
  value whose properties \<open>image\<close>, \<open>name\<close> and \<open>url\<close> are read, each \<open>undefined\<close> (\<open>None\<close>)
  when the payload does not carry it.
\<close>

datatype thrown = Error string | Not_an_Error

record metadata =
  md_image :: "string option"
  md_name :: "string option"
  md_url :: "string option"

datatype http_result = Throws thrown | Response "metadata option"

text \<open>
  The environment: \<open>Date_now env k\<close> is what the \<open>k\<close>-th call of \<open>Date.now()\<close> returns
  (milliseconds), \<open>axios_get env k url\<close> what the \<open>k\<close>-th request does when it asks for
  \<open>url\<close>.
\<close>

record env =
  Date_now :: "nat \<Rightarrow> int"
  axios_get :: "nat \<Rightarrow> string \<Rightarrow> http_result"

section \<open>The contract singleton\<close>

definition contractAddress :: string where
  "contractAddress = toLowerCase ''0x57f1887a8BF19b14fC0dF6Fd9B2acc9Af147eA85''"

definition new_GoodContract :: GoodContract where
  "new_GoodContract =
     \<lparr>gc_id = contractAddress, gc_name = ''Ethereum Name Service'', gc_symbol = ''ENS'',
      gc_totalSupply = 0, gc_numberField = 0\<rparr>"

definition new_BadContract :: BadContract where
  "new_BadContract =
     \<lparr>bc_id = contractAddress, bc_name = ''Ethereum Name Service'', bc_symbol = ''ENS'',
      bc_totalSupply = 0, bc_customField = Some ''asd''\<rparr>"

definition store_get_GoodContract :: "string \<Rightarrow> state \<Rightarrow> GoodContract option \<times> state" where
  "store_get_GoodContract k s =
     (tbl_good s k, s\<lparr>store_ops := store_ops s @ [Get_GoodContract k]\<rparr>)"

definition store_insert_GoodContract :: "GoodContract \<Rightarrow> state \<Rightarrow> state" where
  "store_insert_GoodContract c s =
     s\<lparr>tbl_good := (tbl_good s)(gc_id c \<mapsto> c),
       store_ops := store_ops s @ [Insert_GoodContract c]\<rparr>"

definition store_insert_BadContract :: "BadContract \<Rightarrow> state \<Rightarrow> state" where
  "store_insert_BadContract c s =
     s\<lparr>tbl_bad := (tbl_bad s)(bc_id c \<mapsto> c),
       store_ops := store_ops s @ [Insert_BadContract c]\<rparr>"

definition getOrCreateContractEntity :: "state \<Rightarrow> GoodContract \<times> state" where
  "getOrCreateContractEntity s =
     (case contractEntity s of
        Some c \<Rightarrow> (c, s)
      | None \<Rightarrow>
          (case store_get_GoodContract contractAddress s of
             (Some c, s1) \<Rightarrow> (c, s1\<lparr>contractEntity := Some c\<rparr>)
           | (None, s1) \<Rightarrow>
               (let s2 = s1\<lparr>contractEntity := Some new_GoodContract\<rparr>;
                    s3 = store_insert_GoodContract new_GoodContract s2;
                    s4 = store_insert_BadContract new_BadContract s3
                in (new_GoodContract, s4))))"

section \<open>Queries and writes of the store\<close>

text \<open>
  Modelled from the spec: \<open>findBy(E, {id: In(ids)})\<close> returns the rows whose identity is one
  of \<open>ids\<close>, each as a new object with the attributes of the row; \<open>save\<close> upserts every
  entity of the collection by its identity, in the order of the collection.
\<close>

definition load_Owner :: "nat \<Rightarrow> string \<Rightarrow> Owner" where
  "load_Owner r k = \<lparr>owner_ref = r, owner_id = k\<rparr>"

definition load_Token :: "nat \<Rightarrow> string \<times> TokenRow \<Rightarrow> Token" where
  "load_Token r kv =
     \<lparr>token_ref = r, token_id = fst kv,
      token_owner = map_option (load_Owner (Suc r)) (row_owner (snd kv)),
      token_name = row_name (snd kv), token_imageURI = row_imageURI (snd kv),
      token_uri = row_uri (snd kv), token_expires = row_expires (snd kv),
      token_contract = row_contract (snd kv)\<rparr>"

definition findBy_Owner :: "string list \<Rightarrow> state \<Rightarrow> Owner list \<times> state" where
  "findBy_Owner ids s =
     (let rows = filter (\<lambda>k. k \<in> tbl_owner s) ids
      in (map (\<lambda>(i, k). load_Owner (next_ref s + i) k) (enumerate 0 rows),
          s\<lparr>next_ref := next_ref s + length rows,
            store_ops := store_ops s @ [FindBy_Owner ids]\<rparr>))"

definition findBy_Token :: "string list \<Rightarrow> state \<Rightarrow> Token list \<times> state" where
  "findBy_Token ids s =
     (let rows = List.map_filter (\<lambda>k. map_option (Pair k) (tbl_token s k)) ids
      in (map (\<lambda>(i, kv). load_Token (next_ref s + 2 * i) kv) (enumerate 0 rows),
          s\<lparr>next_ref := next_ref s + 2 * length rows,
            store_ops := store_ops s @ [FindBy_Token ids]\<rparr>))"

definition row_of_Token :: "Token \<Rightarrow> TokenRow" where
  "row_of_Token t =
     \<lparr>row_owner = map_option owner_id (token_owner t), row_name = token_name t,
      row_imageURI = token_imageURI t, row_uri = token_uri t,
      row_expires = token_expires t, row_contract = token_contract t\<rparr>"

text \<open>The token a transfer refers to is the object of the working map with that identity.\<close>

definition deref_token :: "(string \<times> Token) list \<Rightarrow> nat \<Rightarrow> Token option" where
  "deref_token m r = find (\<lambda>t. token_ref t = r) (map snd m)"

definition row_of_Transfer :: "(string \<times> Token) list \<Rightarrow> Transfer \<Rightarrow> TransferRow" where
  "row_of_Transfer m x =
     \<lparr>row_block = transfer_block x, row_timestamp = transfer_timestamp x,
      row_transactionHash = transfer_transactionHash x,
      row_from = owner_id (transfer_from x), row_to = owner_id (transfer_to x),
      row_token = map_option token_id (deref_token m (transfer_token x))\<rparr>"

definition save_Owner :: "Owner list \<Rightarrow> state \<Rightarrow> state" where
  "save_Owner os s =
     s\<lparr>tbl_owner := fold (\<lambda>ow t. insert (owner_id ow) t) os (tbl_owner s),
       store_ops := store_ops s @ [Save_Owner os]\<rparr>"

definition save_Token :: "Token list \<Rightarrow> state \<Rightarrow> state" where
  "save_Token ts s =
     s\<lparr>tbl_token := fold (\<lambda>t m. m(token_id t \<mapsto> row_of_Token t)) ts (tbl_token s),
       store_ops := store_ops s @ [Save_Token ts]\<rparr>"

definition save_Transfer :: "Transfer list \<Rightarrow> state \<Rightarrow> state" where
  "save_Transfer xs s =
     s\<lparr>tbl_transfer :=
         fold (\<lambda>x m. m(transfer_id x \<mapsto> row_of_Transfer (tokens s) x)) xs
           (tbl_transfer s),
       store_ops := store_ops s @ [Save_Transfer xs]\<rparr>"

section \<open>The decoders\<close>

text \<open>
  \<open>events.*.decode\<close> belongs to the generated ABI module, which is not part of the
  sources; the handlers are given what it returns.  \<open>log_ctx\<close> is what a handler reads of
  its context: the transaction hash, the address and index of the log, and the timestamp
  and height of the block.
\<close>

record log_ctx =
  tx_hash :: string
  log_address :: string
  log_index :: int
  block_timestamp :: int
  block_height :: int

definition event_id :: "log_ctx \<Rightarrow> int \<Rightarrow> string" where
  "event_id ctx i =
     tx_hash ctx @ ''-'' @ log_address ctx @ ''-'' @ toString i @ ''-'' @ toString (log_index ctx)"

definition handleNameRegistered :: "log_ctx \<Rightarrow> int \<Rightarrow> string \<Rightarrow> int \<Rightarrow> ENSData" where
  "handleNameRegistered ctx i ownr exp =
     \<lparr>ens_id = event_id ctx i, ens_from = None, ens_to = Some ownr, ens_tokenId = i,
      ens_timestamp = block_timestamp ctx, ens_expires = Some exp,
      ens_block = block_height ctx, ens_transactionHash = tx_hash ctx\<rparr>"

definition handleNameRenewed :: "log_ctx \<Rightarrow> int \<Rightarrow> int \<Rightarrow> ENSData" where
  "handleNameRenewed ctx i exp =
     \<lparr>ens_id = event_id ctx i, ens_from = None, ens_to = None, ens_tokenId = i,
      ens_timestamp = block_timestamp ctx, ens_expires = Some exp,
      ens_block = block_height ctx, ens_transactionHash = tx_hash ctx\<rparr>"

definition handleTransfer :: "log_ctx \<Rightarrow> string \<Rightarrow> string \<Rightarrow> int \<Rightarrow> ENSData" where
  "handleTransfer ctx frm dest i =
     \<lparr>ens_id = event_id ctx i, ens_from = Some frm, ens_to = Some dest, ens_tokenId = i,
      ens_timestamp = block_timestamp ctx, ens_expires = None,
      ens_block = block_height ctx, ens_transactionHash = tx_hash ctx\<rparr>"

text \<open>
  Lines 38-70 of \<open>processor.run\<close>: every log of the contract whose first topic is that of
  \<open>NameRegistered\<close>, \<open>NameRenewed\<close> or \<open>Transfer\<close> is decoded and handed to its handler, and
  the results are pushed to \<open>ensDataArr\<close> in the order of the logs.  An \<open>evm_log\<close> is what
  the decoder of the matching event returns.  \<open>saveENSData\<close> is not exported and is called
  with this array only (line 71).
\<close>

datatype evm_log =
    NameRegistered_log int string int
  | NameRenewed_log int int
  | Transfer_log string string int

definition handle_log :: "log_ctx \<times> evm_log \<Rightarrow> ENSData" where
  "handle_log item =
     (case snd item of
        NameRegistered_log i ownr exp \<Rightarrow> handleNameRegistered (fst item) i ownr exp
      | NameRenewed_log i exp \<Rightarrow> handleNameRenewed (fst item) i exp
      | Transfer_log frm dest i \<Rightarrow> handleTransfer (fst item) frm dest i)"

definition ensDataArr_of :: "(log_ctx \<times> evm_log) list \<Rightarrow> ENSData list" where
  "ensDataArr_of items = map handle_log items"

section \<open>Reconciliation\<close>

text \<open>
  Lines 237-241 and 245-249 of \<open>saveENSData\<close>, once for \<open>from\<close> and once for \<open>to\<close>: look the
  address up as it is spelt; when the address is truthy and nothing was found, create
  the owner under the lowercase address.
\<close>

definition resolveOwner :: "string option \<Rightarrow> state \<Rightarrow> Owner option \<times> state" where
  "resolveOwner a s =
     (case map_of (owners s) (or_empty a) of
        Some ow \<Rightarrow> (Some ow, s)
      | None \<Rightarrow>
          (if truthy a
           then (let ow = \<lparr>owner_ref = next_ref s, owner_id = toLowerCase (or_empty a)\<rparr>
                 in (Some ow,
                     s\<lparr>next_ref := Suc (next_ref s),
                       owners := AList.update (owner_id ow) ow (owners s)\<rparr>))
           else (None, s)))"

text \<open>Lines 251-259: the token of the event, created with the contract singleton if absent.
  The result is the identity of the token object.\<close>

definition new_Token :: "nat \<Rightarrow> string \<Rightarrow> GoodContract \<Rightarrow> Token" where
  "new_Token r i c =
     \<lparr>token_ref = r, token_id = i, token_owner = None, token_name = None,
      token_imageURI = None, token_uri = None, token_expires = None,
      token_contract = Some c\<rparr>"

definition resolveToken :: "string \<Rightarrow> state \<Rightarrow> nat \<times> state" where
  "resolveToken tokenIdString s =
     (case map_of (tokens s) tokenIdString of
        Some t \<Rightarrow> (token_ref t, s)
      | None \<Rightarrow>
          (let s1 = snd (getOrCreateContractEntity s);
               t = new_Token (next_ref s1) tokenIdString (fst (getOrCreateContractEntity s))
           in (token_ref t,
               s1\<lparr>next_ref := Suc (next_ref s1),
                  tokens := AList.update (token_id t) t (tokens s1)\<rparr>)))"

text \<open>An assignment to a field of the token object: the entry of the working map changes.\<close>

definition mutate_token :: "string \<Rightarrow> (Token \<Rightarrow> Token) \<Rightarrow> state \<Rightarrow> state" where
  "mutate_token k f s = s\<lparr>tokens := AList.map_entry k f (tokens s)\<rparr>"

definition truthy_num :: "int option \<Rightarrow> bool" where
  "truthy_num n = (case n of None \<Rightarrow> False | Some x \<Rightarrow> x \<noteq> 0)"

definition num_value :: "int option \<Rightarrow> int" where
  "num_value n = (case n of None \<Rightarrow> 0 | Some x \<Rightarrow> x)"

definition log_warn :: "string \<Rightarrow> state \<Rightarrow> state" where
  "log_warn m s = s\<lparr>warnings := warnings s @ [m]\<rparr>"

definition catch_block :: "int \<Rightarrow> thrown \<Rightarrow> state \<Rightarrow> state" where
  "catch_block tokenId e s =
     (let s1 = log_warn (''[API] Error during fetch token '' @ toString tokenId @ '' metadata'') s
      in case e of Error m \<Rightarrow> log_warn m s1 | Not_an_Error \<Rightarrow> s1)"

text \<open>
  Lines 268-282: the request and the three reads of the payload.  The result is the
  values of \<open>name\<close>, \<open>uri\<close> and \<open>imageURI\<close> when the \<open>finally\<close> block starts.
\<close>

definition tokenURI :: "int \<Rightarrow> string" where
  "tokenURI tokenId =
     ''https://metadata.ens.domains/mainnet/'' @ contractAddress @ ''/'' @ toString tokenId"

definition fetch_metadata ::
  "env \<Rightarrow> int \<Rightarrow> state \<Rightarrow> (string option \<times> string option \<times> string option) \<times> state" where
  "fetch_metadata ev tokenId s =
     (let meta = axios_get ev (length (http_log s)) (tokenURI tokenId);
          s1 = s\<lparr>http_log := http_log s @ [tokenURI tokenId]\<rparr>
      in case meta of
           Throws e \<Rightarrow> ((Some [], Some [], Some []), catch_block tokenId e s1)
         | Response None \<Rightarrow>
             ((Some [], Some [], Some []), catch_block tokenId (Error ''TypeError'') s1)
         | Response (Some d) \<Rightarrow> ((md_name d, md_url d, md_image d), s1))"

text \<open>Lines 289-301.\<close>

definition new_Transfer :: "ENSData \<Rightarrow> Owner \<Rightarrow> Owner \<Rightarrow> nat \<Rightarrow> Transfer" where
  "new_Transfer ensData f t token =
     \<lparr>transfer_id = ens_id ensData, transfer_block = ens_block ensData,
      transfer_timestamp = ens_timestamp ensData,
      transfer_transactionHash = ens_transactionHash ensData,
      transfer_from = f, transfer_to = t, transfer_token = token\<rparr>"

definition add_transfer ::
  "ENSData \<Rightarrow> Owner option \<Rightarrow> Owner option \<Rightarrow> nat \<Rightarrow> state \<Rightarrow> state" where
  "add_transfer ensData fromOwner toOwner token s =
     (case toOwner of
        None \<Rightarrow> s
      | Some t \<Rightarrow>
          (case fromOwner of
             None \<Rightarrow> s
           | Some f \<Rightarrow> s\<lparr>transfers := transfers s @ [new_Transfer ensData f t token]\<rparr>))"

text \<open>The body of the second loop of \<open>saveENSData\<close> (lines 223-302) for one event.\<close>

definition process :: "env \<Rightarrow> ENSData \<Rightarrow> state \<Rightarrow> state" where
  "process ev ensData s =
     (case resolveOwner (ens_from ensData) s of (fromOwner, s1) \<Rightarrow>
      case resolveOwner (ens_to ensData) s1 of (toOwner, s2) \<Rightarrow>
      let tokenIdString = toString (ens_tokenId ensData) in
      case resolveToken tokenIdString s2 of (token, s3) \<Rightarrow>
      let s4 = mutate_token tokenIdString (\<lambda>t. t\<lparr>token_owner := toOwner\<rparr>) s3 in
      if truthy_num (ens_expires ensData)
      then
        (let expires = num_value (ens_expires ensData);
             s5 = mutate_token tokenIdString (\<lambda>t. t\<lparr>token_expires := Some expires\<rparr>) s4;
             now = Date_now ev (date_calls s5);
             s6 = s5\<lparr>date_calls := Suc (date_calls s5)\<rparr>
         in if expires * 1000 < now
            then s6
            else
              (case fetch_metadata ev (ens_tokenId ensData) s6 of
                 ((name, uri, imageURI), s7) \<Rightarrow>
                   add_transfer ensData fromOwner toOwner token
                     (mutate_token tokenIdString
                        (\<lambda>t. t\<lparr>token_name := name, token_uri := uri,
                                token_imageURI := imageURI\<rparr>) s7)))
      else add_transfer ensData fromOwner toOwner token s4)"

fun reconcile :: "env \<Rightarrow> ENSData list \<Rightarrow> state \<Rightarrow> state" where
  "reconcile ev [] s = s"
| "reconcile ev (ensData # rest) s = reconcile ev rest (process ev ensData s)"

text \<open>The first loop (lines 198-205): the identities the batch refers to.\<close>

fun collect_ids :: "ENSData list \<Rightarrow> string list \<times> string list \<Rightarrow> string list \<times> string list" where
  "collect_ids [] acc = acc"
| "collect_ids (ensData # rest) (tokensIds, ownersIds) =
     (let tokensIds1 = Set_add (toString (ens_tokenId ensData)) tokensIds;
          ownersIds1 = (if truthy (ens_from ensData)
                        then Set_add (toLowerCase (or_empty (ens_from ensData))) ownersIds
                        else ownersIds);
          ownersIds2 = (if truthy (ens_to ensData)
                        then Set_add (toLowerCase (or_empty (ens_to ensData))) ownersIds1
                        else ownersIds1)
      in collect_ids rest (tokensIds1, ownersIds2))"

definition preload :: "ENSData list \<Rightarrow> state \<Rightarrow> state" where
  "preload ensDataArr s =
     (case collect_ids ensDataArr ([], []) of (tokensIds, ownersIds) \<Rightarrow>
      case findBy_Token tokensIds s of (ts, s1) \<Rightarrow>
      case findBy_Owner ownersIds s1 of (os, s2) \<Rightarrow>
        s2\<lparr>transfers := [],
           tokens := Map_new (map (\<lambda>t. (token_id t, t)) ts),
           owners := Map_new (map (\<lambda>ow. (owner_id ow, ow)) os)\<rparr>)"

definition flush :: "state \<Rightarrow> state" where
  "flush s =
     (let s1 = save_Owner (map snd (owners s)) s;
          s2 = save_Token (map snd (tokens s1)) s1
      in save_Transfer (transfers s2) s2)"

definition saveENSData :: "env \<Rightarrow> ENSData list \<Rightarrow> state \<Rightarrow> state" where
  "saveENSData ev ensDataArr s = flush (reconcile ev ensDataArr (preload ensDataArr s))"

section \<open>Vocabulary of the properties\<close>

text \<open>
  For an event \<open>e\<close> processed in state \<open>s\<close>: the values of the loop's variables
  \<open>fromOwner\<close>, \<open>toOwner\<close> and \<open>token\<close>, the token of the event in the working map, the
  descriptive fields of a token, and whether the loop body leaves at the \<open>continue\<close> of
  line 266.  \<open>owners_ok\<close> says that every entry of the working owner map is keyed by the
  identity of its owner, a non-empty lowercase string.  \<open>enrichment_throws\<close> says that
  the request of the event, made in state \<open>s\<close>, ends in the \<open>catch\<close> block.  \<open>is_save\<close>
  marks the three collection writes that end a batch.
\<close>

definition fromOwner_of :: "ENSData \<Rightarrow> state \<Rightarrow> Owner option" where
  "fromOwner_of e s = fst (resolveOwner (ens_from e) s)"

definition toOwner_of :: "ENSData \<Rightarrow> state \<Rightarrow> Owner option" where
  "toOwner_of e s = fst (resolveOwner (ens_to e) (snd (resolveOwner (ens_from e) s)))"

definition token_ref_of :: "ENSData \<Rightarrow> state \<Rightarrow> nat" where
  "token_ref_of e s =
     fst (resolveToken (toString (ens_tokenId e))
            (snd (resolveOwner (ens_to e) (snd (resolveOwner (ens_from e) s)))))"

definition token_of :: "state \<Rightarrow> ENSData \<Rightarrow> Token option" where
  "token_of s e = map_of (tokens s) (toString (ens_tokenId e))"

definition descriptive :: "Token \<Rightarrow> string option \<times> string option \<times> string option" where
  "descriptive t = (token_name t, token_uri t, token_imageURI t)"

definition expired :: "env \<Rightarrow> ENSData \<Rightarrow> state \<Rightarrow> bool" where
  "expired ev e s =
     (truthy_num (ens_expires e) \<and> num_value (ens_expires e) * 1000 < Date_now ev (date_calls s))"

definition lower_id :: "string \<Rightarrow> bool" where
  "lower_id k = (k \<noteq> [] \<and> toLowerCase k = k)"

definition owners_ok :: "(string \<times> Owner) list \<Rightarrow> bool" where
  "owners_ok m = list_all (\<lambda>kv. lower_id (fst kv) \<and> owner_id (snd kv) = fst kv) m"

definition enrichment_throws :: "env \<Rightarrow> ENSData \<Rightarrow> state \<Rightarrow> bool" where
  "enrichment_throws ev e s =
     (case axios_get ev (length (http_log s)) (tokenURI (ens_tokenId e)) of
        Throws _ \<Rightarrow> True
      | Response None \<Rightarrow> True
      | Response (Some _) \<Rightarrow> False)"

definition is_save :: "store_op \<Rightarrow> bool" where
  "is_save op = (case op of Save_Owner _ \<Rightarrow> True | Save_Token _ \<Rightarrow> True | Save_Transfer _ \<Rightarrow> True | _ \<Rightarrow> False)"

section \<open>Vocabulary of the persisted state\<close>

text \<open>
  \<open>persisted\<close> is what a batch leaves in the store: the five tables.  \<open>same_answers\<close> says
  that the metadata service answers a request for a given address alike, whatever the
  number of requests made before; \<open>clock_forward\<close> says that the clock never goes back
  from one reading to the next.
\<close>

definition persisted ::
  "state \<Rightarrow> string set \<times> (string \<rightharpoonup> TokenRow) \<times> (string \<rightharpoonup> TransferRow)
     \<times> (string \<rightharpoonup> GoodContract) \<times> (string \<rightharpoonup> BadContract)" where
  "persisted s = (tbl_owner s, tbl_token s, tbl_transfer s, tbl_good s, tbl_bad s)"

definition same_answers :: "env \<Rightarrow> bool" where
  "same_answers ev = (\<forall>k u. axios_get ev k u = axios_get ev 0 u)"

definition clock_forward :: "env \<Rightarrow> bool" where
  "clock_forward ev = (\<forall>k. Date_now ev k \<le> Date_now ev (Suc k))"

text \<open>
  The identities a batch refers to, and the rows the working token map stands for.
  \<open>tokens_ok\<close> says that the working token map has one entry per key, keyed by the
  identity of its token.
\<close>

definition owner_ids :: "ENSData list \<Rightarrow> string set" where
  "owner_ids es =
     set (concat (map (\<lambda>e. map (\<lambda>a. toLowerCase (or_empty a))
                              (filter truthy [ens_from e, ens_to e])) es))"

definition token_ids :: "ENSData list \<Rightarrow> string set" where
  "token_ids es = set (map (\<lambda>e. toString (ens_tokenId e)) es)"

definition rows_of :: "state \<Rightarrow> string \<rightharpoonup> TokenRow" where
  "rows_of s = (\<lambda>k. map_option row_of_Token (map_of (tokens s) k))"

definition tokens_ok :: "(string \<times> Token) list \<Rightarrow> bool" where
  "tokens_ok m = (distinct (map fst m) \<and> list_all (\<lambda>kv. token_id (snd kv) = fst kv) m)"

text \<open>
  What one event does to the row of its token: the owner is assigned, the expiration
  and the three descriptive attributes are assigned or kept.  \<open>metadata_at\<close> is what the
  \<open>finally\<close> block assigns after a request for an address, \<open>row_step ev n e\<close> what the
  event \<open>e\<close> does when its reading of the clock is the \<open>n\<close>-th of the process, and
  \<open>row_fold ev k es n\<close> what the events of token \<open>k\<close> in \<open>es\<close> do, in the order of the
  batch, when \<open>n\<close> readings of the clock precede the batch.
\<close>

definition upd_row ::
  "string option \<Rightarrow> int option \<Rightarrow> (string option \<times> string option \<times> string option) option
     \<Rightarrow> TokenRow \<Rightarrow> TokenRow" where
  "upd_row a b c r =
     r\<lparr>row_owner := a,
       row_expires := (case b of None \<Rightarrow> row_expires r | Some x \<Rightarrow> Some x),
       row_name := (case c of None \<Rightarrow> row_name r | Some d \<Rightarrow> fst d),
       row_uri := (case c of None \<Rightarrow> row_uri r | Some d \<Rightarrow> fst (snd d)),
       row_imageURI := (case c of None \<Rightarrow> row_imageURI r | Some d \<Rightarrow> snd (snd d))\<rparr>"

definition metadata_at :: "env \<Rightarrow> string \<Rightarrow> string option \<times> string option \<times> string option" where
  "metadata_at ev u =
     (case axios_get ev 0 u of
        Throws x \<Rightarrow> (Some [], Some [], Some [])
      | Response None \<Rightarrow> (Some [], Some [], Some [])
      | Response (Some d) \<Rightarrow> (md_name d, md_url d, md_image d))"

definition row_step :: "env \<Rightarrow> nat \<Rightarrow> ENSData \<Rightarrow> TokenRow \<Rightarrow> TokenRow" where
  "row_step ev n e =
     upd_row
       (if truthy (ens_to e) then Some (toLowerCase (or_empty (ens_to e))) else None)
       (if truthy_num (ens_expires e) then Some (num_value (ens_expires e)) else None)
       (if truthy_num (ens_expires e) \<and> \<not> num_value (ens_expires e) * 1000 < Date_now ev n
        then Some (metadata_at ev (tokenURI (ens_tokenId e)))
        else None)"

fun row_fold :: "env \<Rightarrow> string \<Rightarrow> ENSData list \<Rightarrow> nat \<Rightarrow> TokenRow \<Rightarrow> TokenRow" where
  "row_fold ev k [] n r = r"
| "row_fold ev k (e # es) n r =
     row_fold ev k es (if truthy_num (ens_expires e) then Suc n else n)
       (if toString (ens_tokenId e) = k then row_step ev n e r else r)"

text \<open>
  The identities of the token objects of the working map, by reference; \<open>refs_ok\<close> says
  that no two token objects share a reference and that every reference has been
  allocated, \<open>xfers_ok\<close> that every transfer refers to a token object of the map.
  \<open>xfer_rows\<close> is what the final write of the transfers stores; \<open>transfer_rows\<close> is the
  same list read off the events: \<open>records\<close> tells whether an event has both addresses,
  \<open>transfer_row\<close> is the row it then leaves.  \<open>unskippable\<close> says that an event does not
  carry a sender together with an expiration, so that it never leaves the loop body
  before the transfer step with both owners resolved.
\<close>

definition idx :: "(string \<times> Token) list \<Rightarrow> (nat \<times> string) list" where
  "idx m = map (\<lambda>kv. (token_ref (snd kv), token_id (snd kv))) m"

definition refs_ok :: "state \<Rightarrow> bool" where
  "refs_ok s =
     (distinct (map fst (idx (tokens s))) \<and> list_all (\<lambda>p. fst p < next_ref s) (idx (tokens s)))"

definition xfers_ok :: "state \<Rightarrow> bool" where
  "xfers_ok s = list_all (\<lambda>x. map_of (idx (tokens s)) (transfer_token x) \<noteq> None) (transfers s)"

definition xfer_rows :: "state \<Rightarrow> (string \<times> TransferRow) list" where
  "xfer_rows s = map (\<lambda>x. (transfer_id x, row_of_Transfer (tokens s) x)) (transfers s)"

definition records :: "ENSData \<Rightarrow> bool" where
  "records e = (truthy (ens_from e) \<and> truthy (ens_to e))"

definition unskippable :: "ENSData \<Rightarrow> bool" where
  "unskippable e = (\<not> (truthy (ens_from e) \<and> truthy_num (ens_expires e)))"

definition transfer_row :: "ENSData \<Rightarrow> TransferRow" where
  "transfer_row e =
     \<lparr>row_block = ens_block e, row_timestamp = ens_timestamp e,
      row_transactionHash = ens_transactionHash e,
      row_from = toLowerCase (or_empty (ens_from e)), row_to = toLowerCase (or_empty (ens_to e)),
      row_token = Some (toString (ens_tokenId e))\<rparr>"

definition transfer_rows :: "ENSData list \<Rightarrow> (string \<times> TransferRow) list" where
  "transfer_rows es = map (\<lambda>e. (ens_id e, transfer_row e)) (filter records es)"

section \<open>Sample inputs\<close>

text \<open>
  A fresh process on an empty store, a log context, and three environments whose clock
  stands at 1700000000000 ms: in \<open>env_down\<close> every request fails with a network error, in
  \<open>env_bare\<close> the service answers with a payload that carries none of the three
  properties, in \<open>env_up\<close> it answers with all three.
\<close>

definition empty_state :: state where
  "empty_state =
     \<lparr>contractEntity = None, tbl_owner = {}, tbl_token = Map.empty,
      tbl_transfer = Map.empty, tbl_good = Map.empty, tbl_bad = Map.empty,
      store_ops = [], next_ref = 0, date_calls = 0,
      http_log = [], warnings = [], owners = [], tokens = [], transfers = []\<rparr>"

definition sample_ctx :: log_ctx where
  "sample_ctx =
     \<lparr>tx_hash = ''0xf0'', log_address = contractAddress, log_index = 3,
      block_timestamp = 1690000000, block_height = 17000000\<rparr>"

definition env_down :: env where
  "env_down =
     \<lparr>Date_now = (\<lambda>k. 1700000000000), axios_get = (\<lambda>k u. Throws (Error ''Network Error''))\<rparr>"

definition env_bare :: env where
  "env_bare =
     \<lparr>Date_now = (\<lambda>k. 1700000000000),
      axios_get = (\<lambda>k u. Response (Some \<lparr>md_image = None, md_name = None, md_url = None\<rparr>))\<rparr>"

definition env_up :: env where
  "env_up =
     \<lparr>Date_now = (\<lambda>k. 1700000000000),
      axios_get = (\<lambda>k u. Response (Some \<lparr>md_image = Some ''img'', md_name = Some ''a.eth'',
                                          md_url = Some ''url''\<rparr>))\<rparr>"

text \<open>
  Batches and events used as inputs below: a registration followed by a renewal of the
  same token; two transfers whose sender is spelt with an upper-case letter; two
  transfers of the same token to different receivers, and the same two followed by a
  renewal of the token.
\<close>

definition renewal_batch :: "ENSData list" where
  "renewal_batch =
     [handleNameRegistered sample_ctx 1 ''0xa'' 1800000000,
      handleNameRenewed sample_ctx 1 1900000000]"

definition checksummed_batch :: "ENSData list" where
  "checksummed_batch =
     [handleTransfer sample_ctx ''0xAb'' ''0xCd'' 1,
      handleTransfer (sample_ctx\<lparr>log_index := 4\<rparr>) ''0xAb'' ''0xCd'' 1]"

definition first_transfer :: ENSData where
  "first_transfer = handleTransfer sample_ctx ''0xa'' ''0xb'' 1"

definition second_transfer :: ENSData where
  "second_transfer = handleTransfer (sample_ctx\<lparr>log_index := 4\<rparr>) ''0xb'' ''0xc'' 1"

definition trailing_renewal_batch :: "ENSData list" where
  "trailing_renewal_batch =
     [first_transfer, second_transfer,
      handleNameRenewed (sample_ctx\<lparr>log_index := 5\<rparr>) 1 1900000000]"

text \<open>
  An environment whose metadata service answers the first request and fails every later
  one, under a clock that stands; one whose service answers every request, under a
  clock that advances by a second at every reading; one whose service answers every
  request, under a clock that goes back after its first reading.  The registration of
  token 1, and the logs of a registration of token 1 that expires at the first reading
  of the advancing clock, followed by a transfer of the token.
\<close>

definition env_flaky :: env where
  "env_flaky =
     \<lparr>Date_now = (\<lambda>k. 1700000000000),
      axios_get = (\<lambda>k u. if k = 0
                           then Response (Some \<lparr>md_image = Some ''img'', md_name = Some ''a.eth'',
                                                 md_url = Some ''url''\<rparr>)
                           else Throws (Error ''Network Error''))\<rparr>"

definition env_ticking :: env where
  "env_ticking =
     \<lparr>Date_now = (\<lambda>k. 1700000000000 + 1000 * int k),
      axios_get = (\<lambda>k u. Response (Some \<lparr>md_image = Some ''img'', md_name = Some ''a.eth'',
                                          md_url = Some ''url''\<rparr>))\<rparr>"

definition env_backward :: env where
  "env_backward =
     \<lparr>Date_now = (\<lambda>k. if k = 0 then 1900000000000 else 1700000000000),
      axios_get = (\<lambda>k u. Response (Some \<lparr>md_image = Some ''img'', md_name = Some ''a.eth'',
                                          md_url = Some ''url''\<rparr>))\<rparr>"

definition registration :: ENSData where
  "registration = handleNameRegistered sample_ctx 1 ''0xa'' 1800000000"

definition sample_logs :: "(log_ctx \<times> evm_log) list" where
  "sample_logs =
     [(sample_ctx, NameRegistered_log 1 ''0xa'' 1700000000),
      (sample_ctx\<lparr>log_index := 4\<rparr>, Transfer_log ''0xa'' ''0xb'' 1)]"

section \<open>What each step leaves alone\<close>

lemma getOrCreate_cached:
  "contractEntity s = Some c \<Longrightarrow> getOrCreateContractEntity s = (c, s)"
  by (simp add: getOrCreateContractEntity_def)

lemma getOrCreate_caches:
  "contractEntity (snd (getOrCreateContractEntity s)) = Some (fst (getOrCreateContractEntity s))"
  by (simp add: getOrCreateContractEntity_def store_get_GoodContract_def
      store_insert_GoodContract_def store_insert_BadContract_def Let_def
      split: option.splits)

lemma getOrCreate_frame [simp]:
  "tokens (snd (getOrCreateContractEntity s)) = tokens s"
  "owners (snd (getOrCreateContractEntity s)) = owners s"
  "transfers (snd (getOrCreateContractEntity s)) = transfers s"
  "date_calls (snd (getOrCreateContractEntity s)) = date_calls s"
  "http_log (snd (getOrCreateContractEntity s)) = http_log s"
  "warnings (snd (getOrCreateContractEntity s)) = warnings s"
  "next_ref (snd (getOrCreateContractEntity s)) = next_ref s"
  "tbl_owner (snd (getOrCreateContractEntity s)) = tbl_owner s"
  "tbl_token (snd (getOrCreateContractEntity s)) = tbl_token s"
  "tbl_transfer (snd (getOrCreateContractEntity s)) = tbl_transfer s"
  by (simp_all add: getOrCreateContractEntity_def store_get_GoodContract_def
      store_insert_GoodContract_def store_insert_BadContract_def Let_def
      split: option.splits)

lemma resolveOwner_frame [simp]:
  "tokens (snd (resolveOwner a s)) = tokens s"
  "transfers (snd (resolveOwner a s)) = transfers s"
  "date_calls (snd (resolveOwner a s)) = date_calls s"
  "http_log (snd (resolveOwner a s)) = http_log s"
  "warnings (snd (resolveOwner a s)) = warnings s"
  "store_ops (snd (resolveOwner a s)) = store_ops s"
  "contractEntity (snd (resolveOwner a s)) = contractEntity s"
  "tbl_owner (snd (resolveOwner a s)) = tbl_owner s"
  "tbl_token (snd (resolveOwner a s)) = tbl_token s"
  "tbl_transfer (snd (resolveOwner a s)) = tbl_transfer s"
  "tbl_good (snd (resolveOwner a s)) = tbl_good s"
  "tbl_bad (snd (resolveOwner a s)) = tbl_bad s"
  by (simp_all add: resolveOwner_def Let_def split: option.splits)

lemma resolveToken_frame [simp]:
  "owners (snd (resolveToken k s)) = owners s"
  "transfers (snd (resolveToken k s)) = transfers s"
  "date_calls (snd (resolveToken k s)) = date_calls s"
  "http_log (snd (resolveToken k s)) = http_log s"
  "warnings (snd (resolveToken k s)) = warnings s"
  "tbl_owner (snd (resolveToken k s)) = tbl_owner s"
  "tbl_token (snd (resolveToken k s)) = tbl_token s"
  "tbl_transfer (snd (resolveToken k s)) = tbl_transfer s"
  by (simp_all add: resolveToken_def Let_def split: option.splits)

lemma mutate_token_frame [simp]:
  "owners (mutate_token k f s) = owners s"
  "transfers (mutate_token k f s) = transfers s"
  "date_calls (mutate_token k f s) = date_calls s"
  "http_log (mutate_token k f s) = http_log s"
  "warnings (mutate_token k f s) = warnings s"
  "store_ops (mutate_token k f s) = store_ops s"
  "contractEntity (mutate_token k f s) = contractEntity s"
  "next_ref (mutate_token k f s) = next_ref s"
  "tbl_owner (mutate_token k f s) = tbl_owner s"
  "tbl_token (mutate_token k f s) = tbl_token s"
  "tbl_transfer (mutate_token k f s) = tbl_transfer s"
  "tbl_good (mutate_token k f s) = tbl_good s"
  "tbl_bad (mutate_token k f s) = tbl_bad s"
  by (simp_all add: mutate_token_def)

lemma add_transfer_frame [simp]:
  "owners (add_transfer e a b r s) = owners s"
  "tokens (add_transfer e a b r s) = tokens s"
  "date_calls (add_transfer e a b r s) = date_calls s"
  "http_log (add_transfer e a b r s) = http_log s"
  "warnings (add_transfer e a b r s) = warnings s"
  "store_ops (add_transfer e a b r s) = store_ops s"
  "contractEntity (add_transfer e a b r s) = contractEntity s"
  "next_ref (add_transfer e a b r s) = next_ref s"
  "tbl_owner (add_transfer e a b r s) = tbl_owner s"
  "tbl_token (add_transfer e a b r s) = tbl_token s"
  "tbl_transfer (add_transfer e a b r s) = tbl_transfer s"
  "tbl_good (add_transfer e a b r s) = tbl_good s"
  "tbl_bad (add_transfer e a b r s) = tbl_bad s"
  by (simp_all add: add_transfer_def split: option.splits)

lemma catch_block_frame [simp]:
  "owners (catch_block i x s) = owners s"
  "tokens (catch_block i x s) = tokens s"
  "transfers (catch_block i x s) = transfers s"
  "date_calls (catch_block i x s) = date_calls s"
  "http_log (catch_block i x s) = http_log s"
  "store_ops (catch_block i x s) = store_ops s"
  "contractEntity (catch_block i x s) = contractEntity s"
  "next_ref (catch_block i x s) = next_ref s"
  "tbl_owner (catch_block i x s) = tbl_owner s"
  "tbl_token (catch_block i x s) = tbl_token s"
  "tbl_transfer (catch_block i x s) = tbl_transfer s"
  "tbl_good (catch_block i x s) = tbl_good s"
  "tbl_bad (catch_block i x s) = tbl_bad s"
  by (simp_all add: catch_block_def log_warn_def Let_def split: thrown.splits)

lemma fetch_metadata_frame [simp]:
  "owners (snd (fetch_metadata ev i s)) = owners s"
  "tokens (snd (fetch_metadata ev i s)) = tokens s"
  "transfers (snd (fetch_metadata ev i s)) = transfers s"
  "date_calls (snd (fetch_metadata ev i s)) = date_calls s"
  "store_ops (snd (fetch_metadata ev i s)) = store_ops s"
  "contractEntity (snd (fetch_metadata ev i s)) = contractEntity s"
  "next_ref (snd (fetch_metadata ev i s)) = next_ref s"
  "tbl_owner (snd (fetch_metadata ev i s)) = tbl_owner s"
  "tbl_token (snd (fetch_metadata ev i s)) = tbl_token s"
  "tbl_transfer (snd (fetch_metadata ev i s)) = tbl_transfer s"
  "tbl_good (snd (fetch_metadata ev i s)) = tbl_good s"
  "tbl_bad (snd (fetch_metadata ev i s)) = tbl_bad s"
  by (simp_all add: fetch_metadata_def Let_def split: http_result.splits option.splits)

lemma resolveToken_contractEntity:
  "contractEntity s = Some c \<Longrightarrow> contractEntity (snd (resolveToken k s)) = Some c"
  by (simp add: resolveToken_def Let_def getOrCreate_cached split: option.splits)

lemma process_contractEntity:
  "contractEntity s = Some c \<Longrightarrow> contractEntity (process ev e s) = Some c"
  by (simp add: process_def Let_def case_prod_beta resolveToken_contractEntity)

lemma reconcile_contractEntity:
  "contractEntity s = Some c \<Longrightarrow> contractEntity (reconcile ev es s) = Some c"
  by (induction es arbitrary: s) (simp_all add: process_contractEntity)

lemma preload_contractEntity [simp]: "contractEntity (preload es s) = contractEntity s"
  by (simp add: preload_def findBy_Token_def findBy_Owner_def Let_def case_prod_beta)

lemma flush_contractEntity [simp]: "contractEntity (flush s) = contractEntity s"
  by (simp add: flush_def save_Owner_def save_Token_def save_Transfer_def Let_def)

lemma saveENSData_contractEntity:
  "contractEntity s = Some c \<Longrightarrow> contractEntity (saveENSData ev es s) = Some c"
  by (simp add: saveENSData_def reconcile_contractEntity)

section \<open>The contract singleton is resolved once\<close>

text \<open>
  Claim C8.  Whatever the state of the first call of \<open>getOrCreateContractEntity\<close>, a second
  call in the state the first one leaves returns the same entity and changes nothing:
  no store call is recorded and no row is inserted.  The same holds for a call issued
  after any further batch has been processed, since nothing else assigns the module
  variable \<open>contractEntity\<close>.
\<close>

theorem contract_singleton_resolved_once:
  "getOrCreateContractEntity (snd (getOrCreateContractEntity s))
     = (fst (getOrCreateContractEntity s), snd (getOrCreateContractEntity s))
   \<and> getOrCreateContractEntity (saveENSData ev es (snd (getOrCreateContractEntity s)))
     = (fst (getOrCreateContractEntity s), saveENSData ev es (snd (getOrCreateContractEntity s)))"
  by (simp add: getOrCreate_cached getOrCreate_caches saveENSData_contractEntity)

section \<open>The order of the writes\<close>

lemma getOrCreate_ops:
  "\<exists>pre. store_ops (snd (getOrCreateContractEntity s)) = store_ops s @ pre \<and> filter is_save pre = []"
  by (simp add: getOrCreateContractEntity_def store_get_GoodContract_def
      store_insert_GoodContract_def store_insert_BadContract_def Let_def is_save_def
      split: option.splits)

lemma resolveToken_ops:
  "\<exists>pre. store_ops (snd (resolveToken k s)) = store_ops s @ pre \<and> filter is_save pre = []"
  using getOrCreate_ops [of s]
  by (simp add: resolveToken_def Let_def split: option.splits)

lemma process_ops:
  "\<exists>pre. store_ops (process ev e s) = store_ops s @ pre \<and> filter is_save pre = []"
  using resolveToken_ops [of "toString (ens_tokenId e)"
      "snd (resolveOwner (ens_to e) (snd (resolveOwner (ens_from e) s)))"]
  by (simp add: process_def Let_def case_prod_beta)

lemma reconcile_ops:
  "\<exists>pre. store_ops (reconcile ev es s) = store_ops s @ pre \<and> filter is_save pre = []"
proof (induction es arbitrary: s)
  case Nil
  show ?case by simp
next
  case (Cons e es)
  obtain p1 where p1: "store_ops (process ev e s) = store_ops s @ p1" "filter is_save p1 = []"
    using process_ops by blast
  obtain p2 where p2: "store_ops (reconcile ev es (process ev e s)) = store_ops (process ev e s) @ p2"
    "filter is_save p2 = []"
    using Cons.IH by blast
  have "store_ops (reconcile ev (e # es) s) = store_ops s @ (p1 @ p2)"
    using p1 p2 by simp
  moreover have "filter is_save (p1 @ p2) = []"
    using p1 p2 by simp
  ultimately show ?case by blast
qed

lemma preload_ops:
  "\<exists>pre. store_ops (preload es s) = store_ops s @ pre \<and> filter is_save pre = []"
  by (simp add: preload_def findBy_Token_def findBy_Owner_def Let_def case_prod_beta is_save_def)

lemma flush_ops:
  "store_ops (flush s) = store_ops s @
     [Save_Owner (map snd (owners s)), Save_Token (map snd (tokens s)), Save_Transfer (transfers s)]"
  by (simp add: flush_def save_Owner_def save_Token_def save_Transfer_def Let_def)

text \<open>
  Claim C9.  The store calls of one batch are the calls made before, the reads and the
  contract singleton calls of the batch (none of them a collection write), and then
  exactly three writes in this order: the owners of the working map, the tokens of the
  working map, the transfers.
\<close>

theorem writes_in_dependency_order:
  "\<exists>pre. store_ops (saveENSData ev es s) =
      store_ops s @ pre @
        [Save_Owner (map snd (owners (reconcile ev es (preload es s)))),
         Save_Token (map snd (tokens (reconcile ev es (preload es s)))),
         Save_Transfer (transfers (reconcile ev es (preload es s)))]
     \<and> filter is_save pre = []"
proof -
  obtain p1 where p1: "store_ops (preload es s) = store_ops s @ p1" "filter is_save p1 = []"
    using preload_ops by blast
  obtain p2 where p2: "store_ops (reconcile ev es (preload es s)) = store_ops (preload es s) @ p2"
    "filter is_save p2 = []"
    using reconcile_ops by blast
  have "store_ops (saveENSData ev es s) =
      store_ops s @ (p1 @ p2) @
        [Save_Owner (map snd (owners (reconcile ev es (preload es s)))),
         Save_Token (map snd (tokens (reconcile ev es (preload es s)))),
         Save_Transfer (transfers (reconcile ev es (preload es s)))]"
    by (simp add: saveENSData_def flush_ops p1 p2)
  moreover have "filter is_save (p1 @ p2) = []"
    using p1 p2 by simp
  ultimately show ?thesis by blast
qed

section \<open>The effect of one event\<close>

lemma mutate_token_map_of:
  "map_of (tokens (mutate_token k f s)) k' =
     (if k' = k then map_option f (map_of (tokens s) k) else map_of (tokens s) k')"
  by (simp add: mutate_token_def map_of_map_entry split: option.splits)

lemma resolveToken_map_of:
  "map_of (tokens (snd (resolveToken k s))) k' =
     (if k' = k
      then Some (case map_of (tokens s) k of
                   Some t \<Rightarrow> t
                 | None \<Rightarrow> new_Token (next_ref s) k (fst (getOrCreateContractEntity s)))
      else map_of (tokens s) k')"
  by (simp add: resolveToken_def Let_def update_conv' new_Token_def split: option.splits)

lemma resolveOwner_truthy:
  "truthy a \<Longrightarrow> \<exists>ow. fst (resolveOwner a s) = Some ow"
  by (simp add: resolveOwner_def Let_def split: option.splits)

lemma process_date_calls:
  "date_calls (process ev e s) =
     (if truthy_num (ens_expires e) then Suc (date_calls s) else date_calls s)"
  by (simp add: process_def Let_def case_prod_beta)

lemma fetch_metadata_http_log:
  "http_log (snd (fetch_metadata ev i s)) =
     http_log s @ [tokenURI i]"
  by (simp add: fetch_metadata_def Let_def split: http_result.splits option.splits)

lemma process_http_log:
  "http_log (process ev e s) =
     (if truthy_num (ens_expires e) \<and> \<not> expired ev e s
      then http_log s @ [tokenURI (ens_tokenId e)]
      else http_log s)"
  by (simp add: process_def Let_def case_prod_beta expired_def fetch_metadata_http_log)

lemma add_transfer_transfers:
  "transfers (add_transfer e a b r s) =
     (case b of None \<Rightarrow> transfers s
      | Some t \<Rightarrow> (case a of None \<Rightarrow> transfers s
                   | Some f \<Rightarrow> transfers s @ [new_Transfer e f t r]))"
  by (simp add: add_transfer_def split: option.splits)

lemma process_transfers:
  "transfers (process ev e s) =
     (if expired ev e s then transfers s
      else (case toOwner_of e s of None \<Rightarrow> transfers s
            | Some t \<Rightarrow> (case fromOwner_of e s of None \<Rightarrow> transfers s
                         | Some f \<Rightarrow> transfers s @ [new_Transfer e f t (token_ref_of e s)])))"
  by (simp add: process_def Let_def case_prod_beta expired_def add_transfer_transfers
      toOwner_of_def fromOwner_of_def token_ref_of_def split: option.splits)

lemma process_token_expired:
  "expired ev e s \<Longrightarrow>
   token_of (process ev e s) e =
     Some ((case token_of s e of
              Some t \<Rightarrow> t
            | None \<Rightarrow> new_Token
                 (next_ref (snd (resolveOwner (ens_to e) (snd (resolveOwner (ens_from e) s)))))
                 (toString (ens_tokenId e))
                 (fst (getOrCreateContractEntity
                    (snd (resolveOwner (ens_to e) (snd (resolveOwner (ens_from e) s)))))))
           \<lparr>token_owner := toOwner_of e s, token_expires := Some (num_value (ens_expires e))\<rparr>)"
  by (simp add: process_def Let_def case_prod_beta expired_def token_of_def toOwner_of_def
      mutate_token_map_of resolveToken_map_of split: option.splits)

lemma process_token_no_expiry:
  "\<not> truthy_num (ens_expires e) \<Longrightarrow>
   token_of (process ev e s) e =
     Some ((case token_of s e of
              Some t \<Rightarrow> t
            | None \<Rightarrow> new_Token
                 (next_ref (snd (resolveOwner (ens_to e) (snd (resolveOwner (ens_from e) s)))))
                 (toString (ens_tokenId e))
                 (fst (getOrCreateContractEntity
                    (snd (resolveOwner (ens_to e) (snd (resolveOwner (ens_from e) s)))))))
           \<lparr>token_owner := toOwner_of e s\<rparr>)"
  by (simp add: process_def Let_def case_prod_beta expired_def token_of_def toOwner_of_def
      mutate_token_map_of resolveToken_map_of split: option.splits)

lemma truthy_num_simps [simp]:
  "truthy_num None = False" "truthy_num (Some x) = (x \<noteq> 0)"
  by (simp_all add: truthy_num_def)

lemma add_transfer_expires [simp]:
  "add_transfer (e\<lparr>ens_expires := x\<rparr>) a b r s = add_transfer e a b r s"
  by (simp add: add_transfer_def new_Transfer_def split: option.splits)

lemma process_expires_irrelevant:
  "\<not> truthy_num (ens_expires e) \<Longrightarrow> process ev e s = process ev (e\<lparr>ens_expires := None\<rparr>) s"
  by (simp add: process_def Let_def case_prod_beta)

section \<open>An expiration of zero\<close>

text \<open>
  Claim C10.  An event whose \<open>expires\<close> is \<open>0\<close> is processed exactly as the same event
  with no \<open>expires\<close>: the clock is not read, no request is made, the \<open>expires\<close> field of
  the token is what it was (undefined for a token the event creates), and when \<open>from\<close>
  and \<open>to\<close> are both non-empty one transfer is appended.
\<close>

theorem zero_expiration_is_no_expiration:
  assumes "ens_expires e = Some 0"
  shows "process ev e s = process ev (e\<lparr>ens_expires := None\<rparr>) s
    \<and> date_calls (process ev e s) = date_calls s
    \<and> http_log (process ev e s) = http_log s
    \<and> map_option token_expires (token_of (process ev e s) e)
          = Some (case token_of s e of None \<Rightarrow> None | Some t \<Rightarrow> token_expires t)
    \<and> (truthy (ens_from e) \<and> truthy (ens_to e) \<longrightarrow>
          (\<exists>f t. fromOwner_of e s = Some f \<and> toOwner_of e s = Some t
             \<and> transfers (process ev e s)
                 = transfers s @ [new_Transfer e f t (token_ref_of e s)]))"
proof -
  have nt: "\<not> truthy_num (ens_expires e)"
    using assms by simp
  have ne: "\<not> expired ev e s"
    using nt by (simp add: expired_def)
  have same: "process ev e s = process ev (e\<lparr>ens_expires := None\<rparr>) s"
    using nt by (rule process_expires_irrelevant)
  have clock: "date_calls (process ev e s) = date_calls s"
    using nt by (simp add: process_date_calls)
  have http: "http_log (process ev e s) = http_log s"
    using nt by (simp add: process_http_log)
  have exp: "map_option token_expires (token_of (process ev e s) e)
          = Some (case token_of s e of None \<Rightarrow> None | Some t \<Rightarrow> token_expires t)"
    using nt by (simp add: process_token_no_expiry new_Token_def split: option.splits)
  have tr: "\<exists>f t. fromOwner_of e s = Some f \<and> toOwner_of e s = Some t
             \<and> transfers (process ev e s)
                 = transfers s @ [new_Transfer e f t (token_ref_of e s)]"
    if tf: "truthy (ens_from e)" and tt: "truthy (ens_to e)"
  proof -
    obtain f where f: "fromOwner_of e s = Some f"
      using resolveOwner_truthy [OF tf] by (auto simp: fromOwner_of_def)
    obtain t where t: "toOwner_of e s = Some t"
      using resolveOwner_truthy [OF tt] by (auto simp: toOwner_of_def)
    show ?thesis
      using f t ne by (simp add: process_transfers)
  qed
  show ?thesis
    using same clock http exp tr by blast
qed

theorem zero_expiration_witness:
  "ens_expires ((handleTransfer sample_ctx ''0xa'' ''0xb'' 1)\<lparr>ens_expires := Some 0\<rparr>) = Some 0
   \<and> date_calls (process env_down ((handleTransfer sample_ctx ''0xa'' ''0xb'' 1)\<lparr>ens_expires := Some 0\<rparr>)
        empty_state) = 0
   \<and> length (transfers (process env_down
        ((handleTransfer sample_ctx ''0xa'' ''0xb'' 1)\<lparr>ens_expires := Some 0\<rparr>) empty_state)) = 1"
proof -
  let ?e = "(handleTransfer sample_ctx ''0xa'' ''0xb'' 1)\<lparr>ens_expires := Some 0\<rparr>"
  have h: "ens_expires ?e = Some 0"
    by (simp add: handleTransfer_def)
  have a: "truthy (ens_from ?e)" "truthy (ens_to ?e)"
    by (simp_all add: handleTransfer_def truthy_def)
  have d: "date_calls empty_state = 0" "transfers empty_state = []"
    by (simp_all add: empty_state_def)
  from zero_expiration_is_no_expiration [OF h, of env_down empty_state] a d
  show ?thesis
    using h by auto
qed

section \<open>An expiration that has passed\<close>

text \<open>
  Claim C5.  When the event carries an expiration \<open>x\<close> (seconds) with \<open>x * 1000\<close> below the
  clock (milliseconds), processing it makes no request, the token's \<open>name\<close>, \<open>uri\<close> and
  \<open>imageURI\<close> are what they were before the event (undefined for a token the event
  creates), the owner assigned by the event stands, and so does the expiration written
  by it (the loop writes it whenever \<open>x\<close> is not \<open>0\<close>).
\<close>

theorem expired_event_is_not_enriched:
  assumes "ens_expires e = Some x" and "x * 1000 < Date_now ev (date_calls s)"
  shows "http_log (process ev e s) = http_log s
    \<and> (\<exists>t. token_of (process ev e s) e = Some t
          \<and> descriptive t
              = (case token_of s e of None \<Rightarrow> (None, None, None) | Some t0 \<Rightarrow> descriptive t0)
          \<and> token_owner t = toOwner_of e s
          \<and> (x \<noteq> 0 \<longrightarrow> token_expires t = Some x))"
proof (cases "x = 0")
  case True
  then have nt: "\<not> truthy_num (ens_expires e)"
    using assms by simp
  show ?thesis
    using nt True
    by (simp add: process_http_log process_token_no_expiry descriptive_def new_Token_def
        split: option.splits)
next
  case False
  then have ex: "expired ev e s"
    using assms by (simp add: expired_def num_value_def)
  show ?thesis
    using ex False assms(1)
    by (simp add: process_http_log process_token_expired descriptive_def new_Token_def
        num_value_def split: option.splits)
qed

theorem expired_event_witness:
  "ens_expires (handleNameRegistered sample_ctx 1 ''0xa'' 1600000000) = Some 1600000000
   \<and> (1600000000::int) * 1000 < Date_now env_up (date_calls empty_state)
   \<and> http_log (process env_up (handleNameRegistered sample_ctx 1 ''0xa'' 1600000000) empty_state) = []
   \<and> (\<exists>t. token_of (process env_up (handleNameRegistered sample_ctx 1 ''0xa'' 1600000000) empty_state)
              (handleNameRegistered sample_ctx 1 ''0xa'' 1600000000) = Some t
         \<and> descriptive t = (None, None, None) \<and> token_expires t = Some 1600000000)"
proof -
  let ?e = "handleNameRegistered sample_ctx 1 ''0xa'' 1600000000"
  have h1: "ens_expires ?e = Some 1600000000"
    by (simp add: handleNameRegistered_def)
  have h2: "(1600000000::int) * 1000 < Date_now env_up (date_calls empty_state)"
    by (simp add: env_up_def)
  have d: "http_log empty_state = []" "token_of empty_state ?e = None"
    by (simp_all add: empty_state_def token_of_def)
  from expired_event_is_not_enriched [OF h1 h2] d h1 h2
  show ?thesis
    by auto
qed

section \<open>Enrichment\<close>

lemma fetch_metadata_fst:
  "fst (fetch_metadata ev i s) =
     (case axios_get ev (length (http_log s)) (tokenURI i) of
        Throws x \<Rightarrow> (Some [], Some [], Some [])
      | Response None \<Rightarrow> (Some [], Some [], Some [])
      | Response (Some d) \<Rightarrow> (md_name d, md_url d, md_image d))"
  by (simp add: fetch_metadata_def Let_def split: http_result.splits option.splits)

lemma process_token_enriched:
  "truthy_num (ens_expires e) \<Longrightarrow> \<not> expired ev e s \<Longrightarrow>
   token_of (process ev e s) e =
     Some ((case token_of s e of
              Some t \<Rightarrow> t
            | None \<Rightarrow> new_Token
                 (next_ref (snd (resolveOwner (ens_to e) (snd (resolveOwner (ens_from e) s)))))
                 (toString (ens_tokenId e))
                 (fst (getOrCreateContractEntity
                    (snd (resolveOwner (ens_to e) (snd (resolveOwner (ens_from e) s)))))))
           \<lparr>token_owner := toOwner_of e s, token_expires := Some (num_value (ens_expires e)),
            token_name := fst (fst (fetch_metadata ev (ens_tokenId e) s)),
            token_uri := fst (snd (fst (fetch_metadata ev (ens_tokenId e) s))),
            token_imageURI := snd (snd (fst (fetch_metadata ev (ens_tokenId e) s)))\<rparr>)"
  by (simp add: process_def Let_def case_prod_beta expired_def token_of_def toOwner_of_def
      mutate_token_map_of resolveToken_map_of fetch_metadata_fst split: option.splits)

text \<open>
  Claim C6, as amended.  When the request throws, or the response has no \<open>data\<close> to read
  a property from, the token's \<open>name\<close>, \<open>uri\<close> and \<open>imageURI\<close> become the empty string;
  the owner and the expiration written for the event stand, the transfer step runs as
  for any other event, and the loop goes on with the remaining events.
\<close>

theorem thrown_enrichment_gives_empty_strings:
  assumes "truthy_num (ens_expires e)" and "\<not> expired ev e s" and "enrichment_throws ev e s"
  shows "(\<exists>t. token_of (process ev e s) e = Some t
            \<and> descriptive t = (Some [], Some [], Some [])
            \<and> token_owner t = toOwner_of e s
            \<and> token_expires t = Some (num_value (ens_expires e)))
    \<and> transfers (process ev e s) =
         (case toOwner_of e s of None \<Rightarrow> transfers s
          | Some t \<Rightarrow> (case fromOwner_of e s of None \<Rightarrow> transfers s
                       | Some f \<Rightarrow> transfers s @ [new_Transfer e f t (token_ref_of e s)]))
    \<and> reconcile ev (e # rest) s = reconcile ev rest (process ev e s)"
proof -
  have m: "fst (fetch_metadata ev (ens_tokenId e) s) = (Some [], Some [], Some [])"
    using assms(3)
    by (simp add: fetch_metadata_fst enrichment_throws_def split: http_result.splits option.splits)
  have tok: "\<exists>t. token_of (process ev e s) e = Some t
            \<and> descriptive t = (Some [], Some [], Some [])
            \<and> token_owner t = toOwner_of e s
            \<and> token_expires t = Some (num_value (ens_expires e))"
    using assms(1,2) by (simp add: process_token_enriched m descriptive_def)
  have tr: "transfers (process ev e s) =
         (case toOwner_of e s of None \<Rightarrow> transfers s
          | Some t \<Rightarrow> (case fromOwner_of e s of None \<Rightarrow> transfers s
                       | Some f \<Rightarrow> transfers s @ [new_Transfer e f t (token_ref_of e s)]))"
    using assms(2) by (simp add: process_transfers)
  show ?thesis
    using tok tr by simp
qed

theorem thrown_enrichment_witness:
  "truthy_num (ens_expires (handleNameRegistered sample_ctx 1 ''0xa'' 1800000000))
   \<and> \<not> expired env_down (handleNameRegistered sample_ctx 1 ''0xa'' 1800000000) empty_state
   \<and> enrichment_throws env_down (handleNameRegistered sample_ctx 1 ''0xa'' 1800000000) empty_state
   \<and> (\<exists>t. token_of (process env_down (handleNameRegistered sample_ctx 1 ''0xa'' 1800000000)
                       empty_state)
              (handleNameRegistered sample_ctx 1 ''0xa'' 1800000000) = Some t
          \<and> descriptive t = (Some [], Some [], Some [])
          \<and> token_expires t = Some 1800000000)"
proof -
  let ?e = "handleNameRegistered sample_ctx 1 ''0xa'' 1800000000"
  have h1: "truthy_num (ens_expires ?e)"
    by (simp add: handleNameRegistered_def truthy_num_def)
  have h2: "\<not> expired env_down ?e empty_state"
    by (simp add: expired_def handleNameRegistered_def env_down_def num_value_def)
  have h3: "enrichment_throws env_down ?e empty_state"
    by (simp add: enrichment_throws_def env_down_def)
  have n: "num_value (ens_expires ?e) = 1800000000"
    by (simp add: handleNameRegistered_def num_value_def)
  from thrown_enrichment_gives_empty_strings [OF h1 h2 h3, of "[]"] h1 h2 h3 n
  show ?thesis
    by auto
qed

theorem bare_payload_gives_undefined_fields:
  "axios_get env_bare 0 (tokenURI 1)
     = Response (Some \<lparr>md_image = None, md_name = None, md_url = None\<rparr>)
   \<and> map_option descriptive
        (token_of (process env_bare (handleNameRegistered sample_ctx 1 ''0xa'' 1800000000)
                     empty_state)
           (handleNameRegistered sample_ctx 1 ''0xa'' 1800000000))
       = Some (None, None, None)"
proof -
  let ?e = "handleNameRegistered sample_ctx 1 ''0xa'' 1800000000"
  have h1: "truthy_num (ens_expires ?e)"
    by (simp add: handleNameRegistered_def truthy_num_def)
  have h2: "\<not> expired env_bare ?e empty_state"
    by (simp add: expired_def handleNameRegistered_def env_bare_def num_value_def)
  have m: "fst (fetch_metadata env_bare (ens_tokenId ?e) empty_state) = (None, None, None)"
    by (simp add: fetch_metadata_fst env_bare_def)
  have a: "axios_get env_bare 0 (tokenURI 1)
     = Response (Some \<lparr>md_image = None, md_name = None, md_url = None\<rparr>)"
    by (simp add: env_bare_def)
  have b: "map_option descriptive (token_of (process env_bare ?e empty_state) ?e)
       = Some (None, None, None)"
    using process_token_enriched [OF h1 h2] by (simp add: m descriptive_def)
  show ?thesis
    using a b by simp
qed

section \<open>Strings\<close>

lemma lower_char_idem: "lower_char (lower_char c) = lower_char c"
  by (simp add: lower_char_def)

lemma toLowerCase_idem: "toLowerCase (toLowerCase s) = toLowerCase s"
  by (simp add: toLowerCase_def lower_char_idem)

lemma toLowerCase_Nil_iff: "toLowerCase s = [] \<longleftrightarrow> s = []"
  by (simp add: toLowerCase_def)

lemma of_char_digit_char: "a < 10 \<Longrightarrow> of_char (digit_char a) = (48 + a :: nat)"
  by (simp add: digit_char_def)

lemma digit_char_inj:
  assumes "a < 10" and "b < 10" and "digit_char a = digit_char b"
  shows "a = b"
proof -
  have "(of_char (digit_char a) :: nat) = of_char (digit_char b)"
    by (simp only: assms(3))
  then have "48 + a = 48 + b"
    by (simp only: of_char_digit_char [OF assms(1)] of_char_digit_char [OF assms(2)])
  then show ?thesis
    by simp
qed

lemma digit_char_not_minus: "a < 10 \<Longrightarrow> digit_char a \<noteq> CHR ''-''"
proof
  assume a: "a < 10" and e: "digit_char a = CHR ''-''"
  have "(of_char (digit_char a) :: nat) = of_char CHR ''-''"
    using e by simp
  then show False
    using of_char_digit_char [OF a] by simp
qed

lemma digits_small: "n < 10 \<Longrightarrow> digits n = [digit_char n]"
  using digits.simps [of n] by simp

lemma digits_big: "\<not> n < 10 \<Longrightarrow> digits n = digits (n div 10) @ [digit_char (n mod 10)]"
  using digits.simps [of n] by simp

lemma digits_not_Nil: "digits n \<noteq> []"
  by (cases "n < 10") (simp_all add: digits_small digits_big)

lemma last_digits: "last (digits n) = digit_char (n mod 10)"
  by (cases "n < 10") (simp_all add: digits_small digits_big)

lemma butlast_digits: "\<not> n < 10 \<Longrightarrow> butlast (digits n) = digits (n div 10)"
  by (simp add: digits_big)

lemma butlast_digits_small: "n < 10 \<Longrightarrow> butlast (digits n) = []"
  by (simp add: digits_small)

lemma digits_inj: "digits n = digits m \<Longrightarrow> n = m"
proof (induction n arbitrary: m rule: digits.induct)
  case (1 n)
  have l: "digit_char (n mod 10) = digit_char (m mod 10)"
    using "1.prems" last_digits [of n] last_digits [of m] by simp
  then have r: "n mod 10 = m mod 10"
    by (intro digit_char_inj) simp_all
  have b: "butlast (digits n) = butlast (digits m)"
    using "1.prems" by simp
  show ?case
  proof (cases "n < 10")
    case True
    then have "butlast (digits m) = []"
      using b butlast_digits_small by simp
    then have "m < 10"
      using butlast_digits [of m] digits_not_Nil [of "m div 10"] by (cases "m < 10") simp_all
    then show ?thesis
      using True r by simp
  next
    case False
    then have nb: "butlast (digits n) = digits (n div 10)"
      by (rule butlast_digits)
    have mb: "\<not> m < 10"
      using b nb butlast_digits_small [of m] digits_not_Nil [of "n div 10"]
      by (cases "m < 10") simp_all
    then have "digits (n div 10) = digits (m div 10)"
      using b nb butlast_digits [of m] by simp
    then have "n div 10 = m div 10"
      using "1.IH" False by simp
    then show ?thesis
      using r by (metis div_mult_mod_eq)
  qed
qed

lemma hd_digits_not_minus: "hd (digits n) \<noteq> CHR ''-''"
proof (induction n rule: digits.induct)
  case (1 n)
  show ?case
  proof (cases "n < 10")
    case True
    then show ?thesis
      by (simp add: digits_small digit_char_not_minus)
  next
    case False
    then have "hd (digits n) = hd (digits (n div 10))"
      by (simp add: digits_big digits_not_Nil)
    then show ?thesis
      using "1.IH" False by simp
  qed
qed

lemma toString_inj: "toString i = toString j \<Longrightarrow> i = j"
proof -
  assume e: "toString i = toString j"
  have neg: "CHR ''-'' # digits a \<noteq> digits b" for a b
    using hd_digits_not_minus [of b] by (metis list.sel(1))
  show ?thesis
  proof (cases "i < 0")
    case True
    have jn: "j < 0"
    proof (rule ccontr)
      assume "\<not> j < 0"
      then have "CHR ''-'' # digits (nat (- i)) = digits (nat j)"
        using e True by (simp add: toString_def)
      then show False
        using neg by blast
    qed
    then have "digits (nat (- i)) = digits (nat (- j))"
      using e True by (simp add: toString_def)
    then have "nat (- i) = nat (- j)"
      by (rule digits_inj)
    then show ?thesis
      using True jn by simp
  next
    case False
    have jp: "\<not> j < 0"
    proof
      assume "j < 0"
      then have "CHR ''-'' # digits (nat (- j)) = digits (nat i)"
        using e False by (simp add: toString_def)
      then show False
        using neg by blast
    qed
    then have "digits (nat i) = digits (nat j)"
      using e False by (simp add: toString_def)
    then have "nat i = nat j"
      by (rule digits_inj)
    then show ?thesis
      using False jp by simp
  qed
qed

section \<open>The working owner map\<close>

lemma set_update_subset: "set (AList.update k v al) \<subseteq> insert (k, v) (set al)"
  by (induction al) auto

lemma fold_update_subset:
  "set (fold (\<lambda>(k, v) m. AList.update k v m) entries m0) \<subseteq> set entries \<union> set m0"
proof (induction entries arbitrary: m0)
  case Nil
  show ?case by simp
next
  case (Cons x xs)
  obtain k v where x: "x = (k, v)"
    by (cases x)
  have "set (fold (\<lambda>(k, v) m. AList.update k v m) xs (AList.update k v m0))
          \<subseteq> set xs \<union> set (AList.update k v m0)"
    by (rule Cons.IH)
  then show ?case
    using set_update_subset [of k v m0] x by auto
qed

lemma set_Map_new: "set (Map_new entries) \<subseteq> set entries"
  using fold_update_subset [of entries "[]"] by (simp add: Map_new_def)

lemma lower_id_toLowerCase: "truthy a \<Longrightarrow> lower_id (toLowerCase (or_empty a))"
  by (simp add: lower_id_def toLowerCase_idem toLowerCase_Nil_iff truthy_def or_empty_def
      split: option.splits)

lemma owners_ok_update:
  assumes "owners_ok m" and "lower_id k" and "owner_id v = k"
  shows "owners_ok (AList.update k v m)"
proof -
  have "lower_id (fst kv) \<and> owner_id (snd kv) = fst kv" if "kv \<in> set (AList.update k v m)" for kv
  proof (cases "kv = (k, v)")
    case True
    then show ?thesis
      using assms(2,3) by simp
  next
    case False
    then have "kv \<in> set m"
      using that set_update_subset [of k v m] by blast
    then show ?thesis
      using assms(1) by (simp add: owners_ok_def list_all_iff)
  qed
  then show ?thesis
    by (simp add: owners_ok_def list_all_iff)
qed

lemma owners_ok_lookup:
  assumes "owners_ok m" and "map_of m k = Some ow"
  shows "lower_id k \<and> owner_id ow = k"
proof -
  have "(k, ow) \<in> set m"
    using assms(2) by (rule map_of_SomeD)
  then show ?thesis
    using assms(1) by (force simp: owners_ok_def list_all_iff)
qed

lemma owners_ok_no_empty_key:
  assumes "owners_ok m"
  shows "map_of m [] = None"
proof (cases "map_of m []")
  case None
  then show ?thesis .
next
  case (Some ow)
  then have "lower_id []"
    using owners_ok_lookup [OF assms] by blast
  then show ?thesis
    by (simp add: lower_id_def)
qed

lemma or_empty_truthy: "truthy a \<Longrightarrow> or_empty a \<noteq> []"
  by (simp add: truthy_def or_empty_def split: option.splits)

lemma or_empty_not_truthy: "\<not> truthy a \<Longrightarrow> or_empty a = []"
  by (simp add: truthy_def or_empty_def split: option.splits)

lemma resolveOwner_owners:
  "owners (snd (resolveOwner a s)) =
     (if map_of (owners s) (or_empty a) = None \<and> truthy a
      then AList.update (toLowerCase (or_empty a))
             \<lparr>owner_ref = next_ref s, owner_id = toLowerCase (or_empty a)\<rparr> (owners s)
      else owners s)"
  by (simp add: resolveOwner_def Let_def split: option.splits)

lemma resolveOwner_owners_ok:
  assumes "owners_ok (owners s)"
  shows "owners_ok (owners (snd (resolveOwner a s)))"
proof (cases "map_of (owners s) (or_empty a) = None \<and> truthy a")
  case True
  have "owners_ok (AList.update (toLowerCase (or_empty a))
             \<lparr>owner_ref = next_ref s, owner_id = toLowerCase (or_empty a)\<rparr> (owners s))"
    using assms
  proof (rule owners_ok_update)
    show "lower_id (toLowerCase (or_empty a))"
      using True by (simp add: lower_id_toLowerCase)
    show "owner_id \<lparr>owner_ref = next_ref s, owner_id = toLowerCase (or_empty a)\<rparr>
            = toLowerCase (or_empty a)"
      by simp
  qed
  moreover have "owners (snd (resolveOwner a s)) =
      AList.update (toLowerCase (or_empty a))
        \<lparr>owner_ref = next_ref s, owner_id = toLowerCase (or_empty a)\<rparr> (owners s)"
    using True by (simp add: resolveOwner_owners)
  ultimately show ?thesis
    by (simp only:)
next
  case False
  then have "owners (snd (resolveOwner a s)) = owners s"
    by (auto simp: resolveOwner_owners)
  then show ?thesis
    using assms by (simp only:)
qed

lemma resolveOwner_None_iff:
  assumes "owners_ok (owners s)"
  shows "fst (resolveOwner a s) = None \<longleftrightarrow> \<not> truthy a"
proof (cases "truthy a")
  case True
  then show ?thesis
    using resolveOwner_truthy [of a s] by auto
next
  case False
  then have "map_of (owners s) (or_empty a) = None"
    using owners_ok_no_empty_key [OF assms] by (simp add: or_empty_not_truthy)
  then show ?thesis
    using False by (simp add: resolveOwner_def)
qed

lemma resolveOwner_id:
  assumes "owners_ok (owners s)" and "fst (resolveOwner a s) = Some ow"
  shows "owner_id ow = toLowerCase (or_empty a)"
proof (cases "map_of (owners s) (or_empty a)")
  case None
  then show ?thesis
    using assms(2) by (auto simp: resolveOwner_def Let_def split: if_splits)
next
  case (Some ow')
  then have "ow = ow'"
    using assms(2) by (simp add: resolveOwner_def)
  moreover have "lower_id (or_empty a) \<and> owner_id ow' = or_empty a"
    using assms(1) Some by (rule owners_ok_lookup)
  ultimately show ?thesis
    by (simp add: lower_id_def)
qed

lemma process_owners:
  "owners (process ev e s)
     = owners (snd (resolveOwner (ens_to e) (snd (resolveOwner (ens_from e) s))))"
  by (simp add: process_def Let_def case_prod_beta)

lemma process_owners_ok: "owners_ok (owners s) \<Longrightarrow> owners_ok (owners (process ev e s))"
  unfolding process_owners by (intro resolveOwner_owners_ok)

lemma reconcile_owners_ok: "owners_ok (owners s) \<Longrightarrow> owners_ok (owners (reconcile ev es s))"
proof (induction es arbitrary: s)
  case Nil
  then show ?case by simp
next
  case (Cons e es)
  have "owners_ok (owners (process ev e s))"
    using Cons.prems by (rule process_owners_ok)
  then have "owners_ok (owners (reconcile ev es (process ev e s)))"
    by (rule Cons.IH)
  then show ?case by simp
qed

lemma set_Set_add: "set (Set_add x xs) = insert x (set xs)"
  by (auto simp: Set_add_def)

lemma list_all_Set_add: "list_all P (Set_add x xs) \<longleftrightarrow> P x \<and> list_all P xs"
  by (auto simp: list_all_iff set_Set_add)

lemma collect_ids_Cons:
  "collect_ids (e # es) (ts, os) =
     collect_ids es
       (Set_add (toString (ens_tokenId e)) ts,
        (if truthy (ens_to e) then Set_add (toLowerCase (or_empty (ens_to e))) else id)
          ((if truthy (ens_from e) then Set_add (toLowerCase (or_empty (ens_from e))) else id) os))"
  by (simp add: Let_def)

lemma collect_ids_lower:
  "list_all lower_id os \<Longrightarrow> list_all lower_id (snd (collect_ids es (ts, os)))"
proof (induction es arbitrary: ts os)
  case Nil
  then show ?case by simp
next
  case (Cons e es)
  have "list_all lower_id
          ((if truthy (ens_to e) then Set_add (toLowerCase (or_empty (ens_to e))) else id)
            ((if truthy (ens_from e) then Set_add (toLowerCase (or_empty (ens_from e))) else id) os))"
    using Cons.prems by (simp add: list_all_Set_add lower_id_toLowerCase)
  then show ?case
    unfolding collect_ids_Cons by (rule Cons.IH)
qed

lemma enumerate_snd_mem: "(i, x) \<in> set (enumerate n xs) \<Longrightarrow> x \<in> set xs"
  by (auto simp: enumerate_eq_zip dest: set_zip_rightD)

lemma findBy_Owner_ids:
  assumes "ow \<in> set (fst (findBy_Owner ids s))"
  shows "owner_id ow \<in> set ids"
proof -
  obtain i k where ik: "(i, k) \<in> set (enumerate 0 (filter (\<lambda>k. k \<in> tbl_owner s) ids))"
    and ow: "ow = load_Owner (next_ref s + i) k"
    using assms by (auto simp: findBy_Owner_def Let_def)
  have "k \<in> set (filter (\<lambda>k. k \<in> tbl_owner s) ids)"
    using ik by (rule enumerate_snd_mem)
  then show ?thesis
    using ow by (simp add: load_Owner_def)
qed

lemma preload_owners:
  "owners (preload es s) =
     Map_new (map (\<lambda>ow. (owner_id ow, ow))
       (fst (findBy_Owner (snd (collect_ids es ([], [])))
               (snd (findBy_Token (fst (collect_ids es ([], []))) s)))))"
  by (simp add: preload_def case_prod_beta)

lemma preload_owners_ok: "owners_ok (owners (preload es s))"
proof -
  let ?ids = "snd (collect_ids es ([], []))"
  let ?os = "fst (findBy_Owner ?ids (snd (findBy_Token (fst (collect_ids es ([], []))) s)))"
  have good: "list_all lower_id ?ids"
    by (rule collect_ids_lower) simp
  have "lower_id (fst kv) \<and> owner_id (snd kv) = fst kv"
    if "kv \<in> set (Map_new (map (\<lambda>ow. (owner_id ow, ow)) ?os))" for kv
  proof -
    have "kv \<in> set (map (\<lambda>ow. (owner_id ow, ow)) ?os)"
      using that set_Map_new by blast
    then obtain ow where ow: "ow \<in> set ?os" "kv = (owner_id ow, ow)"
      by auto
    have "owner_id ow \<in> set ?ids"
      using ow(1) by (rule findBy_Owner_ids)
    then have "lower_id (owner_id ow)"
      using good by (simp add: list_all_iff)
    then show ?thesis
      using ow(2) by simp
  qed
  then show ?thesis
    unfolding preload_owners owners_ok_def list_all_iff by blast
qed

lemma batch_owners_ok: "owners_ok (owners (reconcile ev pre (preload es s)))"
  by (rule reconcile_owners_ok) (rule preload_owners_ok)

lemma reconcile_append:
  "reconcile ev (pre @ rest) s = reconcile ev rest (reconcile ev pre s)"
  by (induction pre arbitrary: s) simp_all

section \<open>When a transfer is recorded\<close>

lemma decoded_transfer_is_never_skipped: "\<not> expired ev (handleTransfer ctx f t i) s"
  by (simp add: expired_def handleTransfer_def)

lemma decoded_registration_has_no_sender: "\<not> truthy (ens_from (handleNameRegistered ctx i ow x))"
  by (simp add: truthy_def handleNameRegistered_def)

lemma decoded_renewal_has_no_address:
  "\<not> truthy (ens_from (handleNameRenewed ctx i x)) \<and> \<not> truthy (ens_to (handleNameRenewed ctx i x))"
  by (simp add: truthy_def handleNameRenewed_def)


lemma handle_log_unskippable: "unskippable (handle_log item)"
  by (cases "snd item")
    (simp_all add: unskippable_def handle_log_def handleNameRegistered_def handleNameRenewed_def
      handleTransfer_def truthy_def)

lemma unskippable_not_expired:
  "unskippable e \<Longrightarrow> truthy (ens_from e) \<Longrightarrow> \<not> expired ev e s"
  by (simp add: unskippable_def expired_def)



section \<open>The last event of a token decides its owner\<close>

lemma process_other_token:
  "k \<noteq> toString (ens_tokenId e) \<Longrightarrow> map_of (tokens (process ev e s)) k = map_of (tokens s) k"
  by (simp add: process_def Let_def case_prod_beta mutate_token_map_of resolveToken_map_of)

lemma reconcile_other_tokens:
  "\<forall>e\<in>set es. toString (ens_tokenId e) \<noteq> k
     \<Longrightarrow> map_of (tokens (reconcile ev es s)) k = map_of (tokens s) k"
  by (induction es arbitrary: s) (auto simp: process_other_token)

lemma process_token_owner:
  "\<exists>t. token_of (process ev e s) e = Some t \<and> token_owner t = toOwner_of e s"
proof (cases "truthy_num (ens_expires e)")
  case False
  then show ?thesis
    by (simp add: process_token_no_expiry)
next
  case True
  show ?thesis
  proof (cases "expired ev e s")
    case True
    then show ?thesis
      by (simp add: process_token_expired)
  next
    case False
    then show ?thesis
      using \<open>truthy_num (ens_expires e)\<close> by (simp add: process_token_enriched)
  qed
qed

lemma preload_frame [simp]:
  "transfers (preload es s) = []"
  "date_calls (preload es s) = date_calls s"
  "http_log (preload es s) = http_log s"
  "warnings (preload es s) = warnings s"
  "tbl_owner (preload es s) = tbl_owner s"
  "tbl_token (preload es s) = tbl_token s"
  "tbl_transfer (preload es s) = tbl_transfer s"
  "tbl_good (preload es s) = tbl_good s"
  "tbl_bad (preload es s) = tbl_bad s"
  by (simp_all add: preload_def case_prod_beta findBy_Token_def findBy_Owner_def Let_def)

lemma preload_empty_store:
  assumes "tbl_owner s = {}" and "tbl_token s = Map.empty"
  shows "owners (preload es s) = []" and "tokens (preload es s) = []"
    and "next_ref (preload es s) = next_ref s"
  using assms
  by (simp_all add: preload_def case_prod_beta findBy_Token_def findBy_Owner_def Let_def
      Map_new_def map_filter_def)

lemma resolveOwner_fst:
  "fst (resolveOwner a s) =
     (case map_of (owners s) (or_empty a) of
        Some ow \<Rightarrow> Some ow
      | None \<Rightarrow> (if truthy a
                 then Some \<lparr>owner_ref = next_ref s, owner_id = toLowerCase (or_empty a)\<rparr>
                 else None))"
  by (simp add: resolveOwner_def Let_def split: option.splits)

lemma resolveOwner_next_ref:
  "next_ref (snd (resolveOwner a s)) =
     (if map_of (owners s) (or_empty a) = None \<and> truthy a then Suc (next_ref s) else next_ref s)"
  by (simp add: resolveOwner_def Let_def split: option.splits)

lemma resolveToken_fst:
  "fst (resolveToken k s) =
     (case map_of (tokens s) k of Some t \<Rightarrow> token_ref t | None \<Rightarrow> next_ref s)"
  by (simp add: resolveToken_def Let_def new_Token_def split: option.splits)

lemma resolveToken_next_ref:
  "next_ref (snd (resolveToken k s)) =
     (if map_of (tokens s) k = None then Suc (next_ref s) else next_ref s)"
  by (simp add: resolveToken_def Let_def split: option.splits)

lemma process_next_ref:
  "next_ref (process ev e s) =
     next_ref (snd (resolveToken (toString (ens_tokenId e))
        (snd (resolveOwner (ens_to e) (snd (resolveOwner (ens_from e) s))))))"
  by (simp add: process_def Let_def case_prod_beta)

section \<open>A renewal clears the owner\<close>

lemma absent_receiver_clears_owner:
  assumes "s = reconcile ev pre (preload es s0)" and "\<not> truthy (ens_to e)"
  shows "\<exists>t. token_of (process ev e s) e = Some t \<and> token_owner t = None"
proof -
  have "owners_ok (owners s)"
    using assms(1) by (simp add: batch_owners_ok)
  then have "owners_ok (owners (snd (resolveOwner (ens_from e) s)))"
    by (rule resolveOwner_owners_ok)
  then have "toOwner_of e s = None"
    using assms(2) by (simp add: toOwner_of_def resolveOwner_None_iff)
  then show ?thesis
    using process_token_owner [of ev e s] by simp
qed

lemma lower_0xa: "toLowerCase ''0xa'' = ''0xa''"
  by code_simp

text \<open>
  Claim C1 at a failing input.  The batch registers token 1 to \<open>0xa\<close> and then renews it.
  After the registration the token's owner is the owner \<open>0xa\<close>; the renewal, which has no
  \<open>to\<close>, assigns \<open>undefined\<close> to it (\<open>token.owner = toOwner\<close> at line 260 is not guarded),
  so after the loop the token has no owner.  \<open>absent_receiver_clears_owner\<close> shows the same
  for every event without \<open>to\<close> in every batch.
\<close>

theorem renewal_clears_owner:
  "map_option token_owner
     (token_of (reconcile env_down (take 1 renewal_batch) (preload renewal_batch empty_state))
        (renewal_batch ! 1))
     = Some (Some \<lparr>owner_ref = 0, owner_id = ''0xa''\<rparr>)
   \<and> map_option token_owner
     (token_of (reconcile env_down renewal_batch (preload renewal_batch empty_state))
        (renewal_batch ! 1))
     = Some None"
proof -
  let ?reg = "handleNameRegistered sample_ctx 1 ''0xa'' 1800000000"
  let ?ren = "handleNameRenewed sample_ctx 1 1900000000"
  let ?s0 = "preload renewal_batch empty_state"
  let ?s1 = "process env_down ?reg ?s0"
  have e: "tbl_owner empty_state = {}" "tbl_token empty_state = Map.empty"
    "next_ref empty_state = 0"
    by (simp_all add: empty_state_def)
  have s0: "owners ?s0 = []" "next_ref ?s0 = 0"
    using preload_empty_store [OF e(1,2)] e(3) by simp_all
  have same: "token_of s ?ren = token_of s ?reg" for s
    by (simp add: token_of_def handleNameRenewed_def handleNameRegistered_def)
  have "toOwner_of ?reg ?s0 = Some \<lparr>owner_ref = 0, owner_id = ''0xa''\<rparr>"
    by (simp add: toOwner_of_def resolveOwner_fst resolveOwner_owners resolveOwner_next_ref s0
        handleNameRegistered_def truthy_def or_empty_def lower_0xa)
  then have a: "map_option token_owner (token_of ?s1 ?ren)
      = Some (Some \<lparr>owner_ref = 0, owner_id = ''0xa''\<rparr>)"
    using process_token_owner [of env_down ?reg ?s0] by (auto simp: same)
  have s1: "?s1 = reconcile env_down [?reg] (preload renewal_batch empty_state)"
    by simp
  have "\<not> truthy (ens_to ?ren)"
    by (simp add: handleNameRenewed_def truthy_def)
  then have b: "map_option token_owner (token_of (process env_down ?ren ?s1) ?ren) = Some None"
    using absent_receiver_clears_owner [OF s1] by fastforce
  show ?thesis
    using a b by (simp add: renewal_batch_def)
qed

section \<open>A checksummed address is never found in the owner map\<close>

lemma checksummed_address_is_never_found:
  assumes "owners_ok (owners s)" and "a \<noteq> []" and "toLowerCase a \<noteq> a"
  shows "fst (resolveOwner (Some a) s) = Some \<lparr>owner_ref = next_ref s, owner_id = toLowerCase a\<rparr>"
proof -
  have "map_of (owners s) a = None"
  proof (cases "map_of (owners s) a")
    case None
    then show ?thesis .
  next
    case (Some ow)
    then have "lower_id a"
      using owners_ok_lookup [OF assms(1)] by blast
    then show ?thesis
      using assms(3) by (simp add: lower_id_def)
  qed
  then show ?thesis
    using assms(2) by (simp add: resolveOwner_fst or_empty_def truthy_def)
qed

lemma lower_0xAb: "toLowerCase ''0xAb'' = ''0xab''"
  by code_simp

lemma lower_0xCd: "toLowerCase ''0xCd'' = ''0xcd''"
  by code_simp

lemma toString_1: "toString 1 = ''1''"
  by code_simp

text \<open>
  Claim C2 at a failing input.  Two transfers of one batch have the sender \<open>0xAb\<close>, spelt
  with an upper-case letter as the decoder returns addresses.  The first creates the
  owner object 0 under the key \<open>0xab\<close>.  When the second is processed the map still holds
  that object under \<open>0xab\<close>, but \<open>owners.get\<close> is asked for \<open>0xAb\<close> (lines 237 and 245 look
  the address up as spelt, while the map is keyed by the lowercase address) and finds
  nothing, so a second owner object, 3, is created for the same identity.
\<close>

theorem checksummed_address_gets_two_owner_objects:
  "fromOwner_of (checksummed_batch ! 0) (preload checksummed_batch empty_state)
     = Some \<lparr>owner_ref = 0, owner_id = ''0xab''\<rparr>
   \<and> map_of (owners (reconcile env_down (take 1 checksummed_batch)
                        (preload checksummed_batch empty_state))) ''0xab''
     = Some \<lparr>owner_ref = 0, owner_id = ''0xab''\<rparr>
   \<and> fromOwner_of (checksummed_batch ! 1)
        (reconcile env_down (take 1 checksummed_batch) (preload checksummed_batch empty_state))
     = Some \<lparr>owner_ref = 3, owner_id = ''0xab''\<rparr>"
proof -
  let ?t1 = "handleTransfer sample_ctx ''0xAb'' ''0xCd'' 1"
  let ?t2 = "handleTransfer (sample_ctx\<lparr>log_index := 4\<rparr>) ''0xAb'' ''0xCd'' 1"
  let ?s0 = "preload checksummed_batch empty_state"
  let ?s1 = "process env_down ?t1 ?s0"
  have e: "tbl_owner empty_state = {}" "tbl_token empty_state = Map.empty"
    "next_ref empty_state = 0"
    by (simp_all add: empty_state_def)
  have s0: "owners ?s0 = []" "tokens ?s0 = []" "next_ref ?s0 = 0"
    using preload_empty_store [OF e(1,2)] e(3) by simp_all
  have t1: "ens_from ?t1 = Some ''0xAb''" "ens_to ?t1 = Some ''0xCd''" "ens_tokenId ?t1 = 1"
    and t2: "ens_from ?t2 = Some ''0xAb''"
    by (simp_all add: handleTransfer_def)
  have a: "fromOwner_of ?t1 ?s0 = Some \<lparr>owner_ref = 0, owner_id = ''0xab''\<rparr>"
    by (simp add: fromOwner_of_def resolveOwner_fst s0 t1 truthy_def or_empty_def lower_0xAb)
  have o1: "owners ?s1 = [(''0xab'', \<lparr>owner_ref = 0, owner_id = ''0xab''\<rparr>),
                          (''0xcd'', \<lparr>owner_ref = 1, owner_id = ''0xcd''\<rparr>)]"
    by (simp add: process_owners resolveOwner_owners resolveOwner_next_ref s0 t1 truthy_def
        or_empty_def lower_0xAb lower_0xCd)
  have n1: "next_ref ?s1 = 3"
    by (simp add: process_next_ref resolveToken_next_ref resolveOwner_next_ref
        resolveOwner_owners s0 t1 truthy_def or_empty_def lower_0xAb lower_0xCd)
  have ok: "owners_ok (owners ?s1)"
    by (rule process_owners_ok) (simp add: s0 owners_ok_def)
  have "toLowerCase ''0xAb'' \<noteq> ''0xAb''"
    by (simp add: lower_0xAb)
  then have b: "fromOwner_of ?t2 ?s1 = Some \<lparr>owner_ref = 3, owner_id = ''0xab''\<rparr>"
    using checksummed_address_is_never_found [OF ok, of "''0xAb''"]
    by (simp add: fromOwner_of_def t2 n1 lower_0xAb)
  have m: "map_of (owners ?s1) ''0xab'' = Some \<lparr>owner_ref = 0, owner_id = ''0xab''\<rparr>"
    by (simp add: o1)
  show ?thesis
    using a b m by (simp add: checksummed_batch_def)
qed

section \<open>A renewal after two transfers\<close>

text \<open>
  Let \<open>e\<close> be an event with a non-empty \<open>to\<close>, processed after the events \<open>pre\<close> of a batch,
  and let none of the events \<open>post\<close> that follow have the same token id.  Then after
  \<open>post\<close> the token's owner is the owner object resolved for \<open>to\<close> when \<open>e\<close> was processed,
  whose identity is the lowercase \<open>to\<close> address of \<open>e\<close>.
\<close>

lemma last_event_decides_owner:
  assumes "truthy (ens_to e)"
    and "\<forall>x\<in>set post. ens_tokenId x \<noteq> ens_tokenId e"
  shows "\<exists>t ow. token_of (reconcile ev (pre @ e # post) (preload es s0)) e = Some t
           \<and> token_owner t = Some ow
           \<and> toOwner_of e (reconcile ev pre (preload es s0)) = Some ow
           \<and> owner_id ow = toLowerCase (or_empty (ens_to e))"
proof -
  let ?s = "reconcile ev pre (preload es s0)"
  have ok: "owners_ok (owners (snd (resolveOwner (ens_from e) ?s)))"
    by (rule resolveOwner_owners_ok) (rule batch_owners_ok)
  obtain ow where ow: "toOwner_of e ?s = Some ow"
    using resolveOwner_truthy [OF assms(1)] by (auto simp: toOwner_of_def)
  have id: "owner_id ow = toLowerCase (or_empty (ens_to e))"
    using resolveOwner_id [OF ok] ow by (simp add: toOwner_of_def)
  obtain t where t: "token_of (process ev e ?s) e = Some t" "token_owner t = toOwner_of e ?s"
    using process_token_owner by blast
  have other: "\<forall>x\<in>set post. toString (ens_tokenId x) \<noteq> toString (ens_tokenId e)"
    using assms(2) toString_inj by blast
  have "reconcile ev (pre @ e # post) (preload es s0) = reconcile ev post (process ev e ?s)"
    by (simp add: reconcile_append)
  then have "token_of (reconcile ev (pre @ e # post) (preload es s0)) e
      = token_of (process ev e ?s) e"
    using reconcile_other_tokens [OF other] by (simp add: token_of_def)
  then show ?thesis
    using t ow id by simp
qed

lemma lower_0xc: "toLowerCase ''0xc'' = ''0xc''"
  by code_simp

text \<open>
  Claim C4 at a failing input.  The batch transfers token 1 to \<open>0xb\<close>, then to \<open>0xc\<close>, and
  then renews it.  After the two transfers the token's owner is the owner \<open>0xc\<close> of the
  later one, as \<open>last_event_decides_owner\<close> says of every batch that ends there; the
  renewal, which has no \<open>to\<close>, assigns \<open>undefined\<close> (line 260), so after the loop the token
  has no owner.
\<close>

theorem renewal_after_two_transfers_clears_owner:
  "ens_tokenId first_transfer = ens_tokenId second_transfer
   \<and> ens_to first_transfer = Some ''0xb''
   \<and> ens_to second_transfer = Some ''0xc''
   \<and> (\<exists>t ow. token_of (reconcile env_down [first_transfer, second_transfer]
                           (preload trailing_renewal_batch empty_state))
                 second_transfer = Some t
         \<and> token_owner t = Some ow \<and> owner_id ow = ''0xc'')
   \<and> map_option token_owner
       (token_of (reconcile env_down trailing_renewal_batch
                    (preload trailing_renewal_batch empty_state))
          second_transfer)
     = Some None"
proof -
  let ?ren = "handleNameRenewed (sample_ctx\<lparr>log_index := 5\<rparr>) 1 1900000000"
  let ?s0 = "preload trailing_renewal_batch empty_state"
  let ?s2 = "reconcile env_down [first_transfer, second_transfer] ?s0"
  have f: "ens_tokenId first_transfer = ens_tokenId second_transfer"
    "ens_to first_transfer = Some ''0xb''" "ens_to second_transfer = Some ''0xc''"
    by (simp_all add: first_transfer_def second_transfer_def handleTransfer_def)
  have t: "truthy (ens_to second_transfer)"
    by (simp add: second_transfer_def handleTransfer_def truthy_def)
  have o: "or_empty (ens_to second_transfer) = ''0xc''"
    by (simp add: second_transfer_def handleTransfer_def or_empty_def)
  have n: "\<forall>x\<in>set []. ens_tokenId x \<noteq> ens_tokenId second_transfer"
    by simp
  have "\<exists>t ow. token_of (reconcile env_down ([first_transfer] @ second_transfer # []) ?s0)
                 second_transfer = Some t
         \<and> token_owner t = Some ow
         \<and> toOwner_of second_transfer (reconcile env_down [first_transfer] ?s0) = Some ow
         \<and> owner_id ow = toLowerCase (or_empty (ens_to second_transfer))"
    using t n by (rule last_event_decides_owner)
  then have a: "\<exists>t ow. token_of ?s2 second_transfer = Some t
         \<and> token_owner t = Some ow \<and> owner_id ow = ''0xc''"
    by (auto simp: o lower_0xc)
  have same: "token_of s ?ren = token_of s second_transfer" for s
    by (simp add: token_of_def handleNameRenewed_def second_transfer_def handleTransfer_def)
  have s2: "?s2 = reconcile env_down [first_transfer, second_transfer] ?s0"
    by simp
  have "\<not> truthy (ens_to ?ren)"
    by (simp add: handleNameRenewed_def truthy_def)
  then have "\<exists>t. token_of (process env_down ?ren ?s2) ?ren = Some t \<and> token_owner t = None"
    using s2 by (intro absent_receiver_clears_owner)
  then have "map_option token_owner (token_of (process env_down ?ren ?s2) second_transfer)
      = Some None"
    by (auto simp: same)
  moreover have "reconcile env_down trailing_renewal_batch ?s0 = process env_down ?ren ?s2"
    by (simp add: trailing_renewal_batch_def)
  ultimately have b: "map_option token_owner
       (token_of (reconcile env_down trailing_renewal_batch ?s0) second_transfer) = Some None"
    by simp
  show ?thesis
    using f a b by blast
qed

section \<open>The working token map\<close>

lemma update_absent: "k \<notin> fst ` set al \<Longrightarrow> AList.update k v al = al @ [(k, v)]"
  by (induction al) auto

lemma update_present_keys: "k \<in> fst ` set al \<Longrightarrow> map fst (AList.update k v al) = map fst al"
  by (induction al) auto

lemma fold_update_distinct:
  "distinct (map fst (m @ xs)) \<Longrightarrow> fold (\<lambda>(k, v) m. AList.update k v m) xs m = m @ xs"
proof (induction xs arbitrary: m)
  case Nil
  show ?case by simp
next
  case (Cons x xs)
  obtain k v where x: "x = (k, v)"
    by (cases x)
  have absent: "k \<notin> fst ` set m"
    using Cons.prems x by auto
  have d: "distinct (map fst ((m @ [(k, v)]) @ xs))"
    using Cons.prems x by simp
  have "fold (\<lambda>(k, v) m. AList.update k v m) (x # xs) m
          = fold (\<lambda>(k, v) m. AList.update k v m) xs (m @ [(k, v)])"
    using absent by (simp add: x update_absent)
  also have "\<dots> = (m @ [(k, v)]) @ xs"
    using d by (rule Cons.IH)
  finally show ?case
    by (simp add: x)
qed

lemma Map_new_distinct: "distinct (map fst xs) \<Longrightarrow> Map_new xs = xs"
  using fold_update_distinct [of "[]" xs] by (simp add: Map_new_def)

lemma map_entry_keys: "map fst (AList.map_entry k f al) = map fst al"
  by (induction al) auto

lemma set_map_entry:
  "kv \<in> set (AList.map_entry k f al) \<Longrightarrow> kv \<in> set al \<or> (\<exists>v. (k, v) \<in> set al \<and> kv = (k, f v))"
  by (induction al) (auto split: if_splits)

lemma tokens_ok_update:
  assumes "tokens_ok m" and "token_id t = k"
  shows "tokens_ok (AList.update k t m)"
proof -
  have d: "distinct (map fst (AList.update k t m))"
    using assms(1) by (simp add: tokens_ok_def distinct_update)
  have "token_id (snd kv) = fst kv" if "kv \<in> set (AList.update k t m)" for kv
  proof (cases "kv = (k, t)")
    case True
    then show ?thesis
      using assms(2) by simp
  next
    case False
    then have "kv \<in> set m"
      using that set_update_subset [of k t m] by blast
    then show ?thesis
      using assms(1) by (simp add: tokens_ok_def list_all_iff)
  qed
  then show ?thesis
    using d by (simp add: tokens_ok_def list_all_iff)
qed

lemma tokens_ok_map_entry:
  assumes "tokens_ok m" and "\<And>t. token_id (f t) = token_id t"
  shows "tokens_ok (AList.map_entry k f m)"
proof -
  have d: "distinct (map fst (AList.map_entry k f m))"
    using assms(1) by (simp add: tokens_ok_def map_entry_keys)
  have "token_id (snd kv) = fst kv" if mem: "kv \<in> set (AList.map_entry k f m)" for kv
  proof -
    consider "kv \<in> set m" | v where "(k, v) \<in> set m" "kv = (k, f v)"
      using set_map_entry [OF mem] by blast
    then show ?thesis
    proof cases
      case 1
      then show ?thesis
        using assms(1) by (simp add: tokens_ok_def list_all_iff)
    next
      case 2
      have "token_id v = k"
        using 2(1) assms(1) by (force simp: tokens_ok_def list_all_iff)
      then show ?thesis
        using 2(2) assms(2) by simp
    qed
  qed
  then show ?thesis
    using d by (simp add: tokens_ok_def list_all_iff)
qed

lemma mutate_token_tokens_ok:
  assumes "tokens_ok (tokens s)" and "\<And>t. token_id (f t) = token_id t"
  shows "tokens_ok (tokens (mutate_token k f s))"
  using tokens_ok_map_entry [OF assms] by (simp add: mutate_token_def)

lemma resolveToken_tokens:
  "tokens (snd (resolveToken k s)) =
     (case map_of (tokens s) k of
        Some t \<Rightarrow> tokens s
      | None \<Rightarrow> AList.update k (new_Token (next_ref s) k (fst (getOrCreateContractEntity s)))
                 (tokens s))"
  by (simp add: resolveToken_def Let_def new_Token_def split: option.splits)

lemma resolveToken_tokens_ok:
  assumes "tokens_ok (tokens s)"
  shows "tokens_ok (tokens (snd (resolveToken k s)))"
proof (cases "map_of (tokens s) k")
  case None
  have "tokens_ok (AList.update k (new_Token (next_ref s) k (fst (getOrCreateContractEntity s)))
                 (tokens s))"
    using assms by (rule tokens_ok_update) (simp add: new_Token_def)
  then show ?thesis
    using None by (simp add: resolveToken_tokens)
next
  case (Some t)
  then show ?thesis
    using assms by (simp add: resolveToken_tokens)
qed

lemma map_entry_comp:
  "AList.map_entry k f (AList.map_entry k g m) = AList.map_entry k (f \<circ> g) m"
  by (induction m) auto

lemma mutate_token_comp:
  "mutate_token k f (mutate_token k g s) = mutate_token k (f \<circ> g) s"
  by (simp add: mutate_token_def map_entry_comp)

lemma mutate_token_date_calls:
  "mutate_token k f (s\<lparr>date_calls := n\<rparr>) = (mutate_token k f s)\<lparr>date_calls := n\<rparr>"
  by (simp add: mutate_token_def)

lemma tokens_mutate_token: "tokens (mutate_token k f s) = AList.map_entry k f (tokens s)"
  by (simp add: mutate_token_def)

lemma process_tokens:
  "\<exists>F. (\<forall>t. token_id (F t) = token_id t \<and> token_ref (F t) = token_ref t)
     \<and> tokens (process ev e s) =
         AList.map_entry (toString (ens_tokenId e)) F
           (tokens (snd (resolveToken (toString (ens_tokenId e))
              (snd (resolveOwner (ens_to e) (snd (resolveOwner (ens_from e) s)))))))"
proof -
  let ?k = "toString (ens_tokenId e)"
  let ?s3 = "snd (resolveToken ?k (snd (resolveOwner (ens_to e) (snd (resolveOwner (ens_from e) s)))))"
  let ?o = "\<lambda>t. t\<lparr>token_owner := toOwner_of e s\<rparr>"
  let ?x = "\<lambda>t. t\<lparr>token_expires := Some (num_value (ens_expires e))\<rparr>"
  let ?m = "\<lambda>t. t\<lparr>token_name := fst (fst (fetch_metadata ev (ens_tokenId e) s)),
                  token_uri := fst (snd (fst (fetch_metadata ev (ens_tokenId e) s))),
                  token_imageURI := snd (snd (fst (fetch_metadata ev (ens_tokenId e) s)))\<rparr>"
  consider (none) "\<not> truthy_num (ens_expires e)"
    | (past) "truthy_num (ens_expires e)" "expired ev e s"
    | (live) "truthy_num (ens_expires e)" "\<not> expired ev e s"
    by blast
  then show ?thesis
  proof cases
    case none
    then have "tokens (process ev e s) = AList.map_entry ?k ?o (tokens ?s3)"
      by (simp add: process_def Let_def case_prod_beta tokens_mutate_token toOwner_of_def)
    then show ?thesis
      by (intro exI [of _ ?o]) simp
  next
    case past
    then have "tokens (process ev e s) = AList.map_entry ?k (?x \<circ> ?o) (tokens ?s3)"
      by (simp add: process_def Let_def case_prod_beta tokens_mutate_token toOwner_of_def
          expired_def map_entry_comp)
    then show ?thesis
      by (intro exI [of _ "?x \<circ> ?o"]) simp
  next
    case live
    then have "tokens (process ev e s) = AList.map_entry ?k (?m \<circ> (?x \<circ> ?o)) (tokens ?s3)"
      by (simp add: process_def Let_def case_prod_beta tokens_mutate_token toOwner_of_def
          expired_def map_entry_comp fetch_metadata_fst)
    then show ?thesis
      by (intro exI [of _ "?m \<circ> (?x \<circ> ?o)"]) simp
  qed
qed

lemma process_tokens_ok:
  assumes "tokens_ok (tokens s)"
  shows "tokens_ok (tokens (process ev e s))"
proof -
  let ?k = "toString (ens_tokenId e)"
  let ?s3 = "snd (resolveToken ?k (snd (resolveOwner (ens_to e) (snd (resolveOwner (ens_from e) s)))))"
  have t3: "tokens_ok (tokens ?s3)"
    by (rule resolveToken_tokens_ok) (simp add: assms)
  obtain F where F: "\<And>t. token_id (F t) = token_id t"
    and eq: "tokens (process ev e s) = AList.map_entry ?k F (tokens ?s3)"
    using process_tokens [of ev e s] by blast
  show ?thesis
    unfolding eq using t3 F by (rule tokens_ok_map_entry)
qed

lemma reconcile_tokens_ok: "tokens_ok (tokens s) \<Longrightarrow> tokens_ok (tokens (reconcile ev es s))"
proof (induction es arbitrary: s)
  case Nil
  then show ?case by simp
next
  case (Cons e es)
  have "tokens_ok (tokens (process ev e s))"
    using Cons.prems by (rule process_tokens_ok)
  then have "tokens_ok (tokens (reconcile ev es (process ev e s)))"
    by (rule Cons.IH)
  then show ?case by simp
qed

section \<open>What the batch loads\<close>

lemma distinct_Set_add: "distinct xs \<Longrightarrow> distinct (Set_add x xs)"
  by (simp add: Set_add_def)

lemma collect_ids_distinct:
  "distinct ts \<Longrightarrow> distinct os
     \<Longrightarrow> distinct (fst (collect_ids es (ts, os))) \<and> distinct (snd (collect_ids es (ts, os)))"
proof (induction es arbitrary: ts os)
  case Nil
  then show ?case by simp
next
  case (Cons e es)
  show ?case
    unfolding collect_ids_Cons
    by (rule Cons.IH) (simp_all add: Cons.prems distinct_Set_add)
qed

lemma collect_ids_tokens:
  "set (fst (collect_ids es (ts, os))) = set ts \<union> token_ids es"
proof (induction es arbitrary: ts os)
  case Nil
  show ?case by (simp add: token_ids_def)
next
  case (Cons e es)
  show ?case
    unfolding collect_ids_Cons Cons.IH by (auto simp: set_Set_add token_ids_def)
qed

lemma owner_ids_Cons:
  "owner_ids (e # es) =
     (if truthy (ens_from e) then {toLowerCase (or_empty (ens_from e))} else {})
     \<union> (if truthy (ens_to e) then {toLowerCase (or_empty (ens_to e))} else {})
     \<union> owner_ids es"
  by (auto simp: owner_ids_def)

lemma collect_ids_owners:
  "set (snd (collect_ids es (ts, os))) = set os \<union> owner_ids es"
proof (induction es arbitrary: ts os)
  case Nil
  show ?case by (simp add: owner_ids_def)
next
  case (Cons e es)
  show ?case
    unfolding collect_ids_Cons Cons.IH owner_ids_Cons by (auto simp: set_Set_add)
qed

lemma row_of_load_Token: "row_of_Token (load_Token r kv) = snd kv"
  by (simp add: row_of_Token_def load_Token_def load_Owner_def option.map_comp comp_def
      option.map_ident)

lemma token_id_load_Token: "token_id (load_Token r kv) = fst kv"
  by (simp add: load_Token_def)

lemma findBy_Token_rows:
  "map (\<lambda>t. (token_id t, row_of_Token t)) (fst (findBy_Token ids s))
     = List.map_filter (\<lambda>k. map_option (Pair k) (tbl_token s k)) ids"
proof -
  have "map (\<lambda>t. (token_id t, row_of_Token t)) (fst (findBy_Token ids s))
      = map snd (enumerate 0 (List.map_filter (\<lambda>k. map_option (Pair k) (tbl_token s k)) ids))"
    by (simp add: findBy_Token_def Let_def case_prod_beta row_of_load_Token token_id_load_Token
        comp_def)
  then show ?thesis
    by simp
qed

lemma map_filter_keys:
  "map fst (List.map_filter (\<lambda>k. map_option (Pair k) (m k)) ids) = filter (\<lambda>k. m k \<noteq> None) ids"
  by (induction ids) (auto split: option.splits)

lemma map_of_map_filter:
  "map_of (List.map_filter (\<lambda>k. map_option (Pair k) (m k)) ids) k
     = (if k \<in> set ids then m k else None)"
  by (induction ids) (auto split: option.splits)

lemma findBy_Token_keys:
  "map token_id (fst (findBy_Token ids s)) = filter (\<lambda>k. tbl_token s k \<noteq> None) ids"
proof -
  have "map token_id (fst (findBy_Token ids s))
          = map fst (map (\<lambda>t. (token_id t, row_of_Token t)) (fst (findBy_Token ids s)))"
    by (simp add: comp_def)
  then show ?thesis
    by (simp only: findBy_Token_rows map_filter_keys)
qed

lemma preload_tokens_Map_new:
  "tokens (preload es s) =
     Map_new (map (\<lambda>t. (token_id t, t)) (fst (findBy_Token (fst (collect_ids es ([], []))) s)))"
  by (simp add: preload_def case_prod_beta)

lemma preload_tokens:
  "tokens (preload es s) =
     map (\<lambda>t. (token_id t, t)) (fst (findBy_Token (fst (collect_ids es ([], []))) s))"
proof -
  let ?ids = "fst (collect_ids es ([], []))"
  have "distinct ?ids"
    using collect_ids_distinct [of "[]" "[]" es] by simp
  then have "distinct (map token_id (fst (findBy_Token ?ids s)))"
    by (simp add: findBy_Token_keys)
  then have "distinct (map fst (map (\<lambda>t. (token_id t, t)) (fst (findBy_Token ?ids s))))"
    by (simp add: comp_def)
  then show ?thesis
    unfolding preload_tokens_Map_new by (rule Map_new_distinct)
qed

lemma preload_tokens_ok: "tokens_ok (tokens (preload es s))"
proof -
  let ?ids = "fst (collect_ids es ([], []))"
  have "distinct ?ids"
    using collect_ids_distinct [of "[]" "[]" es] by simp
  then have "distinct (map token_id (fst (findBy_Token ?ids s)))"
    by (simp add: findBy_Token_keys)
  then show ?thesis
    by (simp add: preload_tokens tokens_ok_def comp_def list_all_iff)
qed

lemma map_option_map_of_keyed:
  "map_option f (map_of (map (\<lambda>t. (g t, t)) ts) k) = map_of (map (\<lambda>t. (g t, f t)) ts) k"
  by (induction ts) auto

lemma preload_rows:
  "rows_of (preload es s) k = (if k \<in> token_ids es then tbl_token s k else None)"
proof -
  let ?ids = "fst (collect_ids es ([], []))"
  let ?ts = "fst (findBy_Token ?ids s)"
  have "map_option row_of_Token (map_of (map (\<lambda>t. (token_id t, t)) ?ts) k)
          = map_of (map (\<lambda>t. (token_id t, row_of_Token t)) ?ts) k"
    by (rule map_option_map_of_keyed)
  also have "\<dots> = (if k \<in> set ?ids then tbl_token s k else None)"
    by (simp only: findBy_Token_rows map_of_map_filter)
  finally show ?thesis
    using collect_ids_tokens [of es "[]" "[]"] by (simp add: rows_of_def preload_tokens)
qed

section \<open>The persisted attributes of a token, event by event\<close>

lemma upd_row_upd_row:
  "upd_row a' b' c' (upd_row a b c r) =
     upd_row a' (case b' of None \<Rightarrow> b | Some x \<Rightarrow> Some x) (case c' of None \<Rightarrow> c | Some d \<Rightarrow> Some d) r"
  by (simp add: upd_row_def split: option.splits)

lemma clock_forward_le: "clock_forward ev \<Longrightarrow> j \<le> k \<Longrightarrow> Date_now ev j \<le> Date_now ev k"
  by (simp add: clock_forward_def lift_Suc_mono_le)

lemma same_answers_at: "same_answers ev \<Longrightarrow> axios_get ev k u = axios_get ev 0 u"
  by (simp add: same_answers_def)

lemma tokenURI_key:
  "toString (ens_tokenId e) = k
     \<Longrightarrow> tokenURI (ens_tokenId e) = ''https://metadata.ens.domains/mainnet/'' @ contractAddress @ ''/'' @ k"
  by (simp add: tokenURI_def)

lemma row_step_two_readings:
  assumes "clock_forward ev" and "n1 \<le> n2" and "toString (ens_tokenId e) = k"
  shows "\<exists>a b c1 c2. row_step ev n1 e = upd_row a b c1 \<and> row_step ev n2 e = upd_row a b c2
    \<and> (c2 = None \<or> c2 = c1)
    \<and> (c1 = None \<or> c1 = Some (metadata_at ev
          (''https://metadata.ens.domains/mainnet/'' @ contractAddress @ ''/'' @ k)))"
proof -
  let ?a = "if truthy (ens_to e) then Some (toLowerCase (or_empty (ens_to e))) else None"
  let ?b = "if truthy_num (ens_expires e) then Some (num_value (ens_expires e)) else None"
  let ?c = "\<lambda>n. if truthy_num (ens_expires e) \<and> \<not> num_value (ens_expires e) * 1000 < Date_now ev n
        then Some (metadata_at ev (tokenURI (ens_tokenId e))) else None"
  have le: "Date_now ev n1 \<le> Date_now ev n2"
    using assms(1,2) by (rule clock_forward_le)
  have s1: "row_step ev n1 e = upd_row ?a ?b (?c n1)" and s2: "row_step ev n2 e = upd_row ?a ?b (?c n2)"
    by (simp_all add: row_step_def)
  have mono: "?c n2 = None \<or> ?c n2 = ?c n1"
    using le by auto
  have val: "?c n1 = None \<or> ?c n1 = Some (metadata_at ev
          (''https://metadata.ens.domains/mainnet/'' @ contractAddress @ ''/'' @ k))"
    using tokenURI_key [OF assms(3)] by simp
  from s1 s2 mono val show ?thesis
    by blast
qed

lemma row_fold_two_runs:
  assumes "clock_forward ev"
  shows "n1 \<le> n2 \<Longrightarrow>
    (\<forall>r. row_fold ev k es n1 r = r \<and> row_fold ev k es n2 r = r)
    \<or> (\<exists>a b c1 c2. (\<forall>r. row_fold ev k es n1 r = upd_row a b c1 r)
          \<and> (\<forall>r. row_fold ev k es n2 r = upd_row a b c2 r)
          \<and> (c2 = None \<or> c2 = c1)
          \<and> (c1 = None \<or> c1 = Some (metadata_at ev
                (''https://metadata.ens.domains/mainnet/'' @ contractAddress @ ''/'' @ k))))"
proof (induction es arbitrary: n1 n2)
  case Nil
  show ?case by simp
next
  case (Cons e es)
  let ?D = "metadata_at ev (''https://metadata.ens.domains/mainnet/'' @ contractAddress @ ''/'' @ k)"
  let ?m1 = "if truthy_num (ens_expires e) then Suc n1 else n1"
  let ?m2 = "if truthy_num (ens_expires e) then Suc n2 else n2"
  have le: "?m1 \<le> ?m2"
    using Cons.prems by simp
  note IH = Cons.IH [OF le]
  show ?case
  proof (cases "toString (ens_tokenId e) = k")
    case False
    then show ?thesis
      using IH by simp
  next
    case True
    obtain A B ce1 ce2 where st1: "row_step ev n1 e = upd_row A B ce1"
      and st2: "row_step ev n2 e = upd_row A B ce2"
      and ce: "ce2 = None \<or> ce2 = ce1" and cv: "ce1 = None \<or> ce1 = Some ?D"
      using row_step_two_readings [OF assms Cons.prems True] by blast
    have f1: "row_fold ev k (e # es) n1 r = row_fold ev k es ?m1 (upd_row A B ce1 r)" for r
      using True by (simp add: st1)
    have f2: "row_fold ev k (e # es) n2 r = row_fold ev k es ?m2 (upd_row A B ce2 r)" for r
      using True by (simp add: st2)
    from IH show ?thesis
    proof
      assume "\<forall>r. row_fold ev k es ?m1 r = r \<and> row_fold ev k es ?m2 r = r"
      then have "(\<forall>r. row_fold ev k (e # es) n1 r = upd_row A B ce1 r)
          \<and> (\<forall>r. row_fold ev k (e # es) n2 r = upd_row A B ce2 r)"
        by (simp only: f1 f2) simp
      with ce cv show ?thesis
        by blast
    next
      assume "\<exists>a b c1 c2. (\<forall>r. row_fold ev k es ?m1 r = upd_row a b c1 r)
          \<and> (\<forall>r. row_fold ev k es ?m2 r = upd_row a b c2 r)
          \<and> (c2 = None \<or> c2 = c1) \<and> (c1 = None \<or> c1 = Some ?D)"
      then obtain a b c1 c2 where r1: "\<And>r. row_fold ev k es ?m1 r = upd_row a b c1 r"
        and r2: "\<And>r. row_fold ev k es ?m2 r = upd_row a b c2 r"
        and c: "c2 = None \<or> c2 = c1" and v: "c1 = None \<or> c1 = Some ?D"
        by blast
      let ?b = "case b of None \<Rightarrow> B | Some x \<Rightarrow> Some x"
      let ?c1 = "case c1 of None \<Rightarrow> ce1 | Some d \<Rightarrow> Some d"
      let ?c2 = "case c2 of None \<Rightarrow> ce2 | Some d \<Rightarrow> Some d"
      have g1: "\<forall>r. row_fold ev k (e # es) n1 r = upd_row a ?b ?c1 r"
        by (simp only: f1 r1 upd_row_upd_row) simp
      have g2: "\<forall>r. row_fold ev k (e # es) n2 r = upd_row a ?b ?c2 r"
        by (simp only: f2 r2 upd_row_upd_row) simp
      have g3: "?c2 = None \<or> ?c2 = ?c1"
        using c v ce cv by (auto split: option.splits)
      have g4: "?c1 = None \<or> ?c1 = Some ?D"
        using v cv by (auto split: option.splits)
      from g1 g2 g3 g4 show ?thesis
        by blast
    qed
  qed
qed

lemma row_fold_twice:
  assumes "clock_forward ev" and "n1 \<le> n2"
  shows "row_fold ev k es n2 (row_fold ev k es n1 r) = row_fold ev k es n1 r"
  using row_fold_two_runs [OF assms, of k es]
  by (auto simp: upd_row_upd_row split: option.splits)

lemma toOwner_of_id:
  assumes "owners_ok (owners s)"
  shows "map_option owner_id (toOwner_of e s)
    = (if truthy (ens_to e) then Some (toLowerCase (or_empty (ens_to e))) else None)"
proof -
  let ?s1 = "snd (resolveOwner (ens_from e) s)"
  have ok: "owners_ok (owners ?s1)"
    using assms by (rule resolveOwner_owners_ok)
  show ?thesis
  proof (cases "fst (resolveOwner (ens_to e) ?s1)")
    case None
    then have "\<not> truthy (ens_to e)"
      using resolveOwner_None_iff [OF ok] by simp
    then show ?thesis
      using None by (simp add: toOwner_of_def)
  next
    case (Some ow)
    then have "truthy (ens_to e)"
      using resolveOwner_None_iff [OF ok, of "ens_to e"] by auto
    moreover have "owner_id ow = toLowerCase (or_empty (ens_to e))"
      using ok Some by (rule resolveOwner_id)
    ultimately show ?thesis
      using Some by (simp add: toOwner_of_def)
  qed
qed

lemma fromOwner_of_id:
  assumes "owners_ok (owners s)"
  shows "map_option owner_id (fromOwner_of e s)
    = (if truthy (ens_from e) then Some (toLowerCase (or_empty (ens_from e))) else None)"
proof (cases "fst (resolveOwner (ens_from e) s)")
  case None
  then have "\<not> truthy (ens_from e)"
    using resolveOwner_None_iff [OF assms] by simp
  then show ?thesis
    using None by (simp add: fromOwner_of_def)
next
  case (Some ow)
  then have "truthy (ens_from e)"
    using resolveOwner_None_iff [OF assms, of "ens_from e"] by auto
  moreover have "owner_id ow = toLowerCase (or_empty (ens_from e))"
    using assms Some by (rule resolveOwner_id)
  ultimately show ?thesis
    using Some by (simp add: fromOwner_of_def)
qed

lemma fetch_metadata_same:
  "same_answers ev \<Longrightarrow> fst (fetch_metadata ev i s) = metadata_at ev (tokenURI i)"
  by (simp add: fetch_metadata_fst metadata_at_def same_answers_at [of ev "length (http_log s)"])

lemma row_of_Token_update:
  "row_of_Token (t\<lparr>token_owner := ow\<rparr>) = (row_of_Token t)\<lparr>row_owner := map_option owner_id ow\<rparr>"
  "row_of_Token (t\<lparr>token_expires := x\<rparr>) = (row_of_Token t)\<lparr>row_expires := x\<rparr>"
  "row_of_Token (t\<lparr>token_name := n\<rparr>) = (row_of_Token t)\<lparr>row_name := n\<rparr>"
  "row_of_Token (t\<lparr>token_uri := u\<rparr>) = (row_of_Token t)\<lparr>row_uri := u\<rparr>"
  "row_of_Token (t\<lparr>token_imageURI := i\<rparr>) = (row_of_Token t)\<lparr>row_imageURI := i\<rparr>"
  by (simp_all add: row_of_Token_def)

lemma rows_of_token_of: "rows_of s (toString (ens_tokenId e)) = map_option row_of_Token (token_of s e)"
  by (simp add: rows_of_def token_of_def)

lemma process_rows_key:
  assumes st: "same_answers ev" and ok: "owners_ok (owners s)"
  shows "\<exists>r0. rows_of (process ev e s) (toString (ens_tokenId e))
    = Some (row_step ev (date_calls s) e
              (case rows_of s (toString (ens_tokenId e)) of Some r \<Rightarrow> r | None \<Rightarrow> r0))"
proof -
  let ?k = "toString (ens_tokenId e)"
  let ?new = "new_Token
                 (next_ref (snd (resolveOwner (ens_to e) (snd (resolveOwner (ens_from e) s)))))
                 (toString (ens_tokenId e))
                 (fst (getOrCreateContractEntity
                    (snd (resolveOwner (ens_to e) (snd (resolveOwner (ens_from e) s))))))"
  let ?t0 = "case token_of s e of Some t \<Rightarrow> t | None \<Rightarrow> ?new"
  let ?r0 = "case rows_of s ?k of Some r \<Rightarrow> r | None \<Rightarrow> row_of_Token ?new"
  have r0: "row_of_Token ?t0 = ?r0"
    by (simp add: rows_of_token_of split: option.splits)
  have own: "map_option owner_id (toOwner_of e s)
    = (if truthy (ens_to e) then Some (toLowerCase (or_empty (ens_to e))) else None)"
    using ok by (rule toOwner_of_id)
  have "rows_of (process ev e s) ?k = Some (row_step ev (date_calls s) e ?r0)"
  proof (cases "truthy_num (ens_expires e)")
    case False
    have "rows_of (process ev e s) ?k = Some (row_of_Token (?t0\<lparr>token_owner := toOwner_of e s\<rparr>))"
      using process_token_no_expiry [OF False, of ev s] by (simp add: rows_of_token_of)
    also have "row_of_Token (?t0\<lparr>token_owner := toOwner_of e s\<rparr>) = row_step ev (date_calls s) e ?r0"
      unfolding row_of_Token_update r0 own using False by (simp add: row_step_def upd_row_def)
    finally show ?thesis .
  next
    case True
    show ?thesis
    proof (cases "expired ev e s")
      case exp: True
      then have late: "num_value (ens_expires e) * 1000 < Date_now ev (date_calls s)"
        by (simp add: expired_def)
      have "rows_of (process ev e s) ?k
        = Some (row_of_Token (?t0\<lparr>token_owner := toOwner_of e s,
                                   token_expires := Some (num_value (ens_expires e))\<rparr>))"
        using process_token_expired [OF exp] by (simp add: rows_of_token_of)
      also have "row_of_Token (?t0\<lparr>token_owner := toOwner_of e s,
                                   token_expires := Some (num_value (ens_expires e))\<rparr>)
        = row_step ev (date_calls s) e ?r0"
        unfolding row_of_Token_update r0 own using True late by (simp add: row_step_def upd_row_def)
      finally show ?thesis .
    next
      case nexp: False
      then have fresh: "\<not> num_value (ens_expires e) * 1000 < Date_now ev (date_calls s)"
        using True by (simp add: expired_def)
      let ?d = "fst (fetch_metadata ev (ens_tokenId e) s)"
      have d: "?d = metadata_at ev (tokenURI (ens_tokenId e))"
        using st by (rule fetch_metadata_same)
      have "rows_of (process ev e s) ?k
        = Some (row_of_Token (?t0\<lparr>token_owner := toOwner_of e s,
                  token_expires := Some (num_value (ens_expires e)),
                  token_name := fst ?d, token_uri := fst (snd ?d),
                  token_imageURI := snd (snd ?d)\<rparr>))"
        using process_token_enriched [OF True nexp] by (simp add: rows_of_token_of)
      also have "row_of_Token (?t0\<lparr>token_owner := toOwner_of e s,
                  token_expires := Some (num_value (ens_expires e)),
                  token_name := fst ?d, token_uri := fst (snd ?d),
                  token_imageURI := snd (snd ?d)\<rparr>)
        = row_step ev (date_calls s) e ?r0"
        unfolding row_of_Token_update r0 own d
        using True fresh by (simp add: row_step_def upd_row_def)
      finally show ?thesis .
    qed
  qed
  then show ?thesis ..
qed

lemma process_rows_other:
  "k \<noteq> toString (ens_tokenId e) \<Longrightarrow> rows_of (process ev e s) k = rows_of s k"
  by (simp add: rows_of_def process_other_token)

lemma reconcile_rows_Some:
  assumes "same_answers ev"
  shows "owners_ok (owners s) \<Longrightarrow> rows_of s k = Some r
    \<Longrightarrow> rows_of (reconcile ev es s) k = Some (row_fold ev k es (date_calls s) r)"
proof (induction es arbitrary: s r)
  case Nil
  then show ?case by simp
next
  case (Cons e es)
  have ok: "owners_ok (owners (process ev e s))"
    using Cons.prems(1) by (rule process_owners_ok)
  have dc: "date_calls (process ev e s)
      = (if truthy_num (ens_expires e) then Suc (date_calls s) else date_calls s)"
    by (rule process_date_calls)
  show ?case
  proof (cases "toString (ens_tokenId e) = k")
    case True
    obtain r0 where "rows_of (process ev e s) (toString (ens_tokenId e))
      = Some (row_step ev (date_calls s) e
                (case rows_of s (toString (ens_tokenId e)) of Some r \<Rightarrow> r | None \<Rightarrow> r0))"
      using process_rows_key [OF assms Cons.prems(1)] by blast
    then have "rows_of (process ev e s) k = Some (row_step ev (date_calls s) e r)"
      using True Cons.prems(2) by simp
    with ok have "rows_of (reconcile ev es (process ev e s)) k
      = Some (row_fold ev k es (date_calls (process ev e s)) (row_step ev (date_calls s) e r))"
      by (rule Cons.IH)
    then show ?thesis
      using True by (simp add: dc)
  next
    case False
    then have "rows_of (process ev e s) k = Some r"
      using Cons.prems(2) by (simp add: process_rows_other)
    with ok have "rows_of (reconcile ev es (process ev e s)) k
        = Some (row_fold ev k es (date_calls (process ev e s)) r)"
      by (rule Cons.IH)
    then show ?thesis
      using False by (simp add: dc)
  qed
qed

lemma token_ids_Cons: "token_ids (e # es) = insert (toString (ens_tokenId e)) (token_ids es)"
  by (simp add: token_ids_def)

lemma reconcile_rows_None:
  "k \<notin> token_ids es \<Longrightarrow> rows_of (reconcile ev es s) k = rows_of s k"
  by (induction es arbitrary: s) (simp_all add: token_ids_Cons process_rows_other)

lemma reconcile_rows_new:
  assumes "same_answers ev"
  shows "owners_ok (owners s) \<Longrightarrow> rows_of s k = None \<Longrightarrow> k \<in> token_ids es
    \<Longrightarrow> \<exists>r0. rows_of (reconcile ev es s) k = Some (row_fold ev k es (date_calls s) r0)"
proof (induction es arbitrary: s)
  case Nil
  then show ?case by (simp add: token_ids_def)
next
  case (Cons e es)
  have ok: "owners_ok (owners (process ev e s))"
    using Cons.prems(1) by (rule process_owners_ok)
  have dc: "date_calls (process ev e s)
      = (if truthy_num (ens_expires e) then Suc (date_calls s) else date_calls s)"
    by (rule process_date_calls)
  show ?case
  proof (cases "toString (ens_tokenId e) = k")
    case True
    obtain r0 where "rows_of (process ev e s) (toString (ens_tokenId e))
      = Some (row_step ev (date_calls s) e
                (case rows_of s (toString (ens_tokenId e)) of Some r \<Rightarrow> r | None \<Rightarrow> r0))"
      using process_rows_key [OF assms Cons.prems(1)] by blast
    then have "rows_of (process ev e s) k = Some (row_step ev (date_calls s) e r0)"
      using True Cons.prems(2) by simp
    with assms ok have "rows_of (reconcile ev es (process ev e s)) k
      = Some (row_fold ev k es (date_calls (process ev e s)) (row_step ev (date_calls s) e r0))"
      by (rule reconcile_rows_Some)
    then have "rows_of (reconcile ev (e # es) s) k = Some (row_fold ev k (e # es) (date_calls s) r0)"
      using True by (simp add: dc)
    then show ?thesis ..
  next
    case False
    then have none: "rows_of (process ev e s) k = None"
      using Cons.prems(2) by (simp add: process_rows_other)
    have mem: "k \<in> token_ids es"
      using Cons.prems(3) False by (auto simp: token_ids_Cons)
    obtain r0 where "rows_of (reconcile ev es (process ev e s)) k
        = Some (row_fold ev k es (date_calls (process ev e s)) r0)"
      using Cons.IH [OF ok none mem] by blast
    then have "rows_of (reconcile ev (e # es) s) k = Some (row_fold ev k (e # es) (date_calls s) r0)"
      using False by (simp add: dc)
    then show ?thesis ..
  qed
qed

lemma reconcile_date_calls_le: "date_calls s \<le> date_calls (reconcile ev es s)"
proof (induction es arbitrary: s)
  case Nil
  show ?case by simp
next
  case (Cons e es)
  have "date_calls s \<le> date_calls (process ev e s)"
    by (simp add: process_date_calls)
  also have "\<dots> \<le> date_calls (reconcile ev es (process ev e s))"
    by (rule Cons.IH)
  finally show ?case by simp
qed

section \<open>What the final writes leave in the token table\<close>

lemma fold_save_tokens:
  "distinct (map fst xs) \<Longrightarrow> list_all (\<lambda>kv. token_id (snd kv) = fst kv) xs \<Longrightarrow>
   fold (\<lambda>t m. m(token_id t \<mapsto> row_of_Token t)) (map snd xs) m0 k
     = (case map_of xs k of Some t \<Rightarrow> Some (row_of_Token t) | None \<Rightarrow> m0 k)"
proof (induction xs arbitrary: m0)
  case Nil
  then show ?case by simp
next
  case (Cons x xs)
  obtain a t where x: "x = (a, t)" by (cases x)
  have d: "distinct (map fst xs)" and l: "list_all (\<lambda>kv. token_id (snd kv) = fst kv) xs"
    and a: "a \<notin> fst ` set xs" and t: "token_id t = a"
    using Cons.prems by (simp_all add: x)
  have none: "map_of xs a = None"
    using a by (simp add: map_of_eq_None_iff)
  show ?case
    using Cons.IH [OF d l, of "m0(a \<mapsto> row_of_Token t)"] none
    by (simp add: x t split: option.splits)
qed

lemma flush_tbl_token:
  assumes "tokens_ok (tokens s)"
  shows "tbl_token (flush s) k = (case rows_of s k of Some r \<Rightarrow> Some r | None \<Rightarrow> tbl_token s k)"
proof -
  have "tbl_token (flush s) k
    = fold (\<lambda>t m. m(token_id t \<mapsto> row_of_Token t)) (map snd (tokens s)) (tbl_token s) k"
    by (simp add: flush_def Let_def save_Owner_def save_Token_def save_Transfer_def)
  also have "\<dots> = (case map_of (tokens s) k of Some t \<Rightarrow> Some (row_of_Token t) | None \<Rightarrow> tbl_token s k)"
    using assms by (intro fold_save_tokens) (simp_all add: tokens_ok_def)
  finally show ?thesis
    by (simp add: rows_of_def split: option.splits)
qed

lemma flush_date_calls: "date_calls (flush s) = date_calls s"
  by (simp add: flush_def Let_def save_Owner_def save_Token_def save_Transfer_def)

lemma saveENSData_date_calls_le: "date_calls s \<le> date_calls (saveENSData ev es s)"
  using reconcile_date_calls_le [of "preload es s" ev es]
  by (simp add: saveENSData_def flush_date_calls)

section \<open>The tables during the loop\<close>

lemma process_tables:
  "tbl_owner (process ev e s) = tbl_owner s"
  "tbl_token (process ev e s) = tbl_token s"
  "tbl_transfer (process ev e s) = tbl_transfer s"
  by (simp_all add: process_def Let_def case_prod_beta)

lemma reconcile_tables:
  "tbl_owner (reconcile ev es s) = tbl_owner s"
  "tbl_token (reconcile ev es s) = tbl_token s"
  "tbl_transfer (reconcile ev es s) = tbl_transfer s"
  by (induction es arbitrary: s) (simp_all add: process_tables)

lemma resolveToken_present: "map_of (tokens s) k = Some t \<Longrightarrow> snd (resolveToken k s) = s"
  by (simp add: resolveToken_def)

lemma process_contract_tables:
  assumes "map_of (tokens s) (toString (ens_tokenId e)) \<noteq> None"
  shows "tbl_good (process ev e s) = tbl_good s" and "tbl_bad (process ev e s) = tbl_bad s"
proof -
  let ?s2 = "snd (resolveOwner (ens_to e) (snd (resolveOwner (ens_from e) s)))"
  obtain t where "map_of (tokens ?s2) (toString (ens_tokenId e)) = Some t"
    using assms by auto
  then have same: "snd (resolveToken (toString (ens_tokenId e)) ?s2) = ?s2"
    by (rule resolveToken_present)
  show "tbl_good (process ev e s) = tbl_good s"
    by (simp add: process_def Let_def case_prod_beta same)
  show "tbl_bad (process ev e s) = tbl_bad s"
    by (simp add: process_def Let_def case_prod_beta same)
qed

lemma process_keeps_tokens:
  assumes "map_of (tokens s) k \<noteq> None"
  shows "map_of (tokens (process ev e s)) k \<noteq> None"
proof (cases "k = toString (ens_tokenId e)")
  case True
  then show ?thesis
    using process_token_owner [of ev e s] by (auto simp: token_of_def)
next
  case False
  then show ?thesis
    using assms by (simp add: process_other_token)
qed

lemma reconcile_contract_tables:
  "list_all (\<lambda>e. map_of (tokens s) (toString (ens_tokenId e)) \<noteq> None) es
     \<Longrightarrow> tbl_good (reconcile ev es s) = tbl_good s \<and> tbl_bad (reconcile ev es s) = tbl_bad s"
proof (induction es arbitrary: s)
  case Nil
  show ?case by simp
next
  case (Cons e es)
  have here: "map_of (tokens s) (toString (ens_tokenId e)) \<noteq> None"
    using Cons.prems by simp
  have "list_all (\<lambda>e'. map_of (tokens (process ev e s)) (toString (ens_tokenId e')) \<noteq> None) es"
    unfolding list_all_iff
  proof
    fix e'
    assume "e' \<in> set es"
    then have "map_of (tokens s) (toString (ens_tokenId e')) \<noteq> None"
      using Cons.prems by (simp add: list_all_iff)
    then show "map_of (tokens (process ev e s)) (toString (ens_tokenId e')) \<noteq> None"
      by (rule process_keeps_tokens)
  qed
  then have "tbl_good (reconcile ev es (process ev e s)) = tbl_good (process ev e s)
      \<and> tbl_bad (reconcile ev es (process ev e s)) = tbl_bad (process ev e s)"
    by (rule Cons.IH)
  then show ?case
    by (simp add: process_contract_tables [OF here])
qed

lemma flush_contract_tables:
  "tbl_good (flush s) = tbl_good s" "tbl_bad (flush s) = tbl_bad s"
  by (simp_all add: flush_def Let_def save_Owner_def save_Token_def save_Transfer_def)

lemma rows_of_None_iff: "rows_of s k = None \<longleftrightarrow> map_of (tokens s) k = None"
  by (simp add: rows_of_def)

lemma saveENSData_contract_tables:
  assumes "\<And>k. k \<in> token_ids es \<Longrightarrow> tbl_token s k \<noteq> None"
  shows "tbl_good (saveENSData ev es s) = tbl_good s \<and> tbl_bad (saveENSData ev es s) = tbl_bad s"
proof -
  have "map_of (tokens (preload es s)) (toString (ens_tokenId e)) \<noteq> None" if "e \<in> set es" for e
  proof -
    have "toString (ens_tokenId e) \<in> token_ids es"
      using that by (simp add: token_ids_def)
    then have "rows_of (preload es s) (toString (ens_tokenId e)) \<noteq> None"
      using assms by (simp add: preload_rows)
    then show ?thesis
      by (simp add: rows_of_None_iff)
  qed
  then have "list_all (\<lambda>e. map_of (tokens (preload es s)) (toString (ens_tokenId e)) \<noteq> None) es"
    by (simp add: list_all_iff)
  then have "tbl_good (reconcile ev es (preload es s)) = tbl_good (preload es s)
      \<and> tbl_bad (reconcile ev es (preload es s)) = tbl_bad (preload es s)"
    by (rule reconcile_contract_tables)
  then show ?thesis
    by (simp add: saveENSData_def flush_contract_tables)
qed

section \<open>The token table after a batch\<close>

lemma batch_tokens_ok: "tokens_ok (tokens (reconcile ev es (preload es s)))"
  by (rule reconcile_tokens_ok) (rule preload_tokens_ok)

lemma saveENSData_tbl_token:
  "tbl_token (saveENSData ev es s) k =
     (case rows_of (reconcile ev es (preload es s)) k of Some r \<Rightarrow> Some r | None \<Rightarrow> tbl_token s k)"
  unfolding saveENSData_def flush_tbl_token [OF batch_tokens_ok]
  by (simp add: reconcile_tables split: option.splits)

lemma saveENSData_token_other:
  "k \<notin> token_ids es \<Longrightarrow> tbl_token (saveENSData ev es s) k = tbl_token s k"
  by (simp add: saveENSData_tbl_token reconcile_rows_None preload_rows)

lemma saveENSData_token_known:
  assumes "same_answers ev" and "k \<in> token_ids es" and "tbl_token s k = Some r"
  shows "tbl_token (saveENSData ev es s) k = Some (row_fold ev k es (date_calls s) r)"
proof -
  have "rows_of (preload es s) k = Some r"
    using assms(2,3) by (simp add: preload_rows)
  with assms(1) preload_owners_ok
  have "rows_of (reconcile ev es (preload es s)) k
      = Some (row_fold ev k es (date_calls (preload es s)) r)"
    by (rule reconcile_rows_Some)
  then show ?thesis
    by (simp add: saveENSData_tbl_token)
qed

lemma saveENSData_token_folded:
  assumes "same_answers ev" and "k \<in> token_ids es"
  shows "\<exists>r. tbl_token (saveENSData ev es s) k = Some (row_fold ev k es (date_calls s) r)"
proof (cases "tbl_token s k")
  case (Some r)
  with assms have "tbl_token (saveENSData ev es s) k = Some (row_fold ev k es (date_calls s) r)"
    by (rule saveENSData_token_known)
  then show ?thesis ..
next
  case None
  then have "rows_of (preload es s) k = None"
    by (simp add: preload_rows)
  with assms(1) preload_owners_ok
  obtain r0 where "rows_of (reconcile ev es (preload es s)) k
      = Some (row_fold ev k es (date_calls (preload es s)) r0)"
    using assms(2) reconcile_rows_new by blast
  then have "tbl_token (saveENSData ev es s) k = Some (row_fold ev k es (date_calls s) r0)"
    by (simp add: saveENSData_tbl_token)
  then show ?thesis ..
qed

lemma saveENSData_tokens_twice:
  assumes "same_answers ev" and "clock_forward ev"
  shows "tbl_token (saveENSData ev es (saveENSData ev es s)) = tbl_token (saveENSData ev es s)"
proof
  fix k
  show "tbl_token (saveENSData ev es (saveENSData ev es s)) k = tbl_token (saveENSData ev es s) k"
  proof (cases "k \<in> token_ids es")
    case False
    then show ?thesis
      by (simp add: saveENSData_token_other)
  next
    case True
    obtain r where once: "tbl_token (saveENSData ev es s) k
        = Some (row_fold ev k es (date_calls s) r)"
      using saveENSData_token_folded [OF assms(1) True] by blast
    have le: "date_calls s \<le> date_calls (saveENSData ev es s)"
      by (rule saveENSData_date_calls_le)
    have "tbl_token (saveENSData ev es (saveENSData ev es s)) k
        = Some (row_fold ev k es (date_calls (saveENSData ev es s))
                  (row_fold ev k es (date_calls s) r))"
      using assms(1) True once by (rule saveENSData_token_known)
    then show ?thesis
      by (simp add: once row_fold_twice [OF assms(2) le])
  qed
qed

lemma saveENSData_contracts_twice:
  assumes "same_answers ev"
  shows "tbl_good (saveENSData ev es (saveENSData ev es s)) = tbl_good (saveENSData ev es s)
    \<and> tbl_bad (saveENSData ev es (saveENSData ev es s)) = tbl_bad (saveENSData ev es s)"
proof (rule saveENSData_contract_tables)
  fix k
  assume "k \<in> token_ids es"
  with assms obtain r where "tbl_token (saveENSData ev es s) k
      = Some (row_fold ev k es (date_calls s) r)"
    using saveENSData_token_folded by blast
  then show "tbl_token (saveENSData ev es s) k \<noteq> None"
    by simp
qed

section \<open>The owner table after a batch\<close>

lemma update_key_set: "fst ` set (AList.update k v al) = insert k (fst ` set al)"
  using AList.dom_update [of k v al] by (simp add: dom_map_of_conv_image_fst)

lemma resolveOwner_keys:
  assumes "owners_ok (owners s)"
  shows "fst ` set (owners (snd (resolveOwner a s)))
    = fst ` set (owners s) \<union> (if truthy a then {toLowerCase (or_empty a)} else {})"
proof (cases "map_of (owners s) (or_empty a)")
  case None
  then show ?thesis
    by (simp add: resolveOwner_owners update_key_set)
next
  case (Some ow)
  then have low: "lower_id (or_empty a) \<and> owner_id ow = or_empty a"
    using assms by (intro owners_ok_lookup)
  have "(or_empty a, ow) \<in> set (owners s)"
    using Some by (rule map_of_SomeD)
  then have "or_empty a \<in> fst ` set (owners s)"
    by force
  moreover have "toLowerCase (or_empty a) = or_empty a"
    using low by (simp add: lower_id_def)
  ultimately show ?thesis
    using Some by (auto simp: resolveOwner_owners)
qed

lemma process_owner_keys:
  assumes "owners_ok (owners s)"
  shows "fst ` set (owners (process ev e s)) = fst ` set (owners s) \<union> owner_ids [e]"
proof -
  have ok: "owners_ok (owners (snd (resolveOwner (ens_from e) s)))"
    using assms by (rule resolveOwner_owners_ok)
  show ?thesis
    unfolding process_owners resolveOwner_keys [OF ok] resolveOwner_keys [OF assms]
    by (auto simp: owner_ids_def)
qed

lemma owner_ids_Cons': "owner_ids (e # es) = owner_ids [e] \<union> owner_ids es"
  by (simp add: owner_ids_def)

lemma reconcile_owner_keys:
  "owners_ok (owners s)
     \<Longrightarrow> fst ` set (owners (reconcile ev es s)) = fst ` set (owners s) \<union> owner_ids es"
proof (induction es arbitrary: s)
  case Nil
  show ?case by (simp add: owner_ids_def)
next
  case (Cons e es)
  have ok: "owners_ok (owners (process ev e s))"
    using Cons.prems by (rule process_owners_ok)
  have "fst ` set (owners (reconcile ev (e # es) s))
      = fst ` set (owners (process ev e s)) \<union> owner_ids es"
    using Cons.IH [OF ok] by simp
  also have "\<dots> = (fst ` set (owners s) \<union> owner_ids [e]) \<union> owner_ids es"
    by (simp only: process_owner_keys [OF Cons.prems])
  also have "\<dots> = fst ` set (owners s) \<union> owner_ids (e # es)"
    unfolding owner_ids_Cons' [of e es] by (simp only: Un_assoc)
  finally show ?case .
qed

lemma preload_owner_keys: "fst ` set (owners (preload es s)) \<subseteq> owner_ids es"
proof
  fix k
  assume "k \<in> fst ` set (owners (preload es s))"
  then obtain ow where "(k, ow) \<in> set (owners (preload es s))"
    by auto
  then have "(k, ow) \<in> set (map (\<lambda>ow. (owner_id ow, ow))
       (fst (findBy_Owner (snd (collect_ids es ([], [])))
               (snd (findBy_Token (fst (collect_ids es ([], []))) s)))))"
    unfolding preload_owners using set_Map_new by blast
  then have "ow \<in> set (fst (findBy_Owner (snd (collect_ids es ([], [])))
               (snd (findBy_Token (fst (collect_ids es ([], []))) s))))" and k: "k = owner_id ow"
    by auto
  then have "owner_id ow \<in> set (snd (collect_ids es ([], [])))"
    by (intro findBy_Owner_ids)
  then show "k \<in> owner_ids es"
    using collect_ids_owners [of es "[]" "[]"] k by simp
qed

lemma batch_owner_keys: "fst ` set (owners (reconcile ev es (preload es s))) = owner_ids es"
  using reconcile_owner_keys [OF preload_owners_ok, of ev es es s] preload_owner_keys [of es s]
  by blast

lemma fold_insert_set: "fold (\<lambda>x t. insert (f x) t) xs A = A \<union> f ` set xs"
  by (induction xs arbitrary: A) auto

lemma flush_tbl_owner:
  assumes "owners_ok (owners s)"
  shows "tbl_owner (flush s) = tbl_owner s \<union> fst ` set (owners s)"
proof -
  have "owner_id (snd kv) = fst kv" if "kv \<in> set (owners s)" for kv
    using assms that by (simp add: owners_ok_def list_all_iff)
  then have "owner_id ` snd ` set (owners s) = fst ` set (owners s)"
    by (force simp: image_iff)
  then show ?thesis
    by (simp add: flush_def Let_def save_Owner_def save_Token_def save_Transfer_def
        fold_insert_set)
qed

lemma saveENSData_tbl_owner: "tbl_owner (saveENSData ev es s) = tbl_owner s \<union> owner_ids es"
  unfolding saveENSData_def flush_tbl_owner [OF batch_owners_ok]
  by (simp add: reconcile_tables batch_owner_keys)

lemma saveENSData_owners_twice:
  "tbl_owner (saveENSData ev es (saveENSData ev es s)) = tbl_owner (saveENSData ev es s)"
  by (auto simp: saveENSData_tbl_owner)

section \<open>The token a transfer refers to\<close>

lemma deref_idx: "map_option token_id (deref_token m r) = map_of (idx m) r"
  by (induction m) (simp_all add: deref_token_def idx_def)

lemma idx_map_entry:
  assumes "\<And>t. token_id (F t) = token_id t \<and> token_ref (F t) = token_ref t"
  shows "idx (AList.map_entry k F m) = idx m"
  by (induction m) (auto simp: idx_def assms)

lemma idx_update_new:
  "map_of m k = None \<Longrightarrow> idx (AList.update k t m) = idx m @ [(token_ref t, token_id t)]"
  by (simp add: update_absent map_of_eq_None_iff idx_def)

lemma process_idx:
  "idx (tokens (process ev e s)) =
     (if map_of (tokens s) (toString (ens_tokenId e)) = None
      then idx (tokens s)
             @ [(next_ref (snd (resolveOwner (ens_to e) (snd (resolveOwner (ens_from e) s)))),
                 toString (ens_tokenId e))]
      else idx (tokens s))"
proof -
  let ?k = "toString (ens_tokenId e)"
  let ?s2 = "snd (resolveOwner (ens_to e) (snd (resolveOwner (ens_from e) s)))"
  obtain F where F: "\<And>t. token_id (F t) = token_id t \<and> token_ref (F t) = token_ref t"
    and tk: "tokens (process ev e s) = AList.map_entry ?k F (tokens (snd (resolveToken ?k ?s2)))"
    using process_tokens [of ev e s] by blast
  have "idx (tokens (process ev e s)) = idx (tokens (snd (resolveToken ?k ?s2)))"
    unfolding tk using F by (rule idx_map_entry)
  also have "\<dots> = (if map_of (tokens s) ?k = None
      then idx (tokens s) @ [(next_ref ?s2, ?k)] else idx (tokens s))"
    by (auto simp: resolveToken_tokens idx_update_new new_Token_def split: option.splits)
  finally show ?thesis .
qed

lemma resolveOwner_next_ref_le: "next_ref s \<le> next_ref (snd (resolveOwner a s))"
  by (simp add: resolveOwner_next_ref)

lemma process_next_ref_le:
  "next_ref (snd (resolveOwner (ens_to e) (snd (resolveOwner (ens_from e) s))))
     \<le> next_ref (process ev e s)"
  by (simp add: process_next_ref resolveToken_next_ref)

lemma owners_next_ref_le:
  "next_ref s \<le> next_ref (snd (resolveOwner (ens_to e) (snd (resolveOwner (ens_from e) s))))"
  using resolveOwner_next_ref_le [of s "ens_from e"]
    resolveOwner_next_ref_le [of "snd (resolveOwner (ens_from e) s)" "ens_to e"]
  by (rule order_trans)

lemma process_refs_ok:
  assumes "refs_ok s"
  shows "refs_ok (process ev e s)"
proof -
  let ?k = "toString (ens_tokenId e)"
  let ?s2 = "snd (resolveOwner (ens_to e) (snd (resolveOwner (ens_from e) s)))"
  have d: "distinct (map fst (idx (tokens s)))"
    and lt: "\<And>p. p \<in> set (idx (tokens s)) \<Longrightarrow> fst p < next_ref s"
    using assms by (simp_all add: refs_ok_def list_all_iff)
  have le2: "next_ref s \<le> next_ref ?s2"
    by (rule owners_next_ref_le)
  have le3: "next_ref ?s2 \<le> next_ref (process ev e s)"
    by (rule process_next_ref_le)
  have old: "fst p < next_ref (process ev e s)" if "p \<in> set (idx (tokens s))" for p
    using lt [OF that] le2 le3 by simp
  show ?thesis
  proof (cases "map_of (tokens s) ?k = None")
    case False
    then have "idx (tokens (process ev e s)) = idx (tokens s)"
      by (simp add: process_idx)
    then show ?thesis
      using d old by (simp add: refs_ok_def list_all_iff)
  next
    case True
    have new: "next_ref ?s2 < next_ref (process ev e s)"
      using True by (simp add: process_next_ref resolveToken_next_ref)
    have fresh: "next_ref ?s2 \<notin> fst ` set (idx (tokens s))"
      using lt le2 by force
    have "idx (tokens (process ev e s)) = idx (tokens s) @ [(next_ref ?s2, ?k)]"
      using True by (simp add: process_idx)
    then show ?thesis
      using d old new fresh by (auto simp: refs_ok_def list_all_iff)
  qed
qed

lemma token_ref_of_eq:
  "token_ref_of e s =
     (case map_of (tokens s) (toString (ens_tokenId e)) of
        Some t \<Rightarrow> token_ref t
      | None \<Rightarrow> next_ref (snd (resolveOwner (ens_to e) (snd (resolveOwner (ens_from e) s)))))"
  by (simp add: token_ref_of_def resolveToken_fst)

lemma process_token_key:
  assumes "tokens_ok (tokens s)" and "refs_ok s"
  shows "map_of (idx (tokens (process ev e s))) (token_ref_of e s) = Some (toString (ens_tokenId e))"
proof -
  let ?k = "toString (ens_tokenId e)"
  let ?s2 = "snd (resolveOwner (ens_to e) (snd (resolveOwner (ens_from e) s)))"
  have d: "distinct (map fst (idx (tokens s)))"
    and lt: "\<And>p. p \<in> set (idx (tokens s)) \<Longrightarrow> fst p < next_ref s"
    using assms(2) by (simp_all add: refs_ok_def list_all_iff)
  show ?thesis
  proof (cases "map_of (tokens s) ?k")
    case None
    have "next_ref ?s2 \<notin> fst ` set (idx (tokens s))"
      using lt owners_next_ref_le [of s e] by force
    then have "map_of (idx (tokens s)) (next_ref ?s2) = None"
      by (simp add: map_of_eq_None_iff)
    then show ?thesis
      using None by (simp add: process_idx token_ref_of_eq map_add_def)
  next
    case (Some t)
    then have mem: "(?k, t) \<in> set (tokens s)"
      by (rule map_of_SomeD)
    then have "token_id t = ?k"
      using assms(1) by (force simp: tokens_ok_def list_all_iff)
    then have "(token_ref t, ?k) \<in> set (idx (tokens s))"
      using mem by (force simp: idx_def)
    then have "map_of (idx (tokens s)) (token_ref t) = Some ?k"
      using d by simp
    then show ?thesis
      using Some by (simp add: process_idx token_ref_of_eq)
  qed
qed

lemma process_old_keys:
  assumes "map_of (idx (tokens s)) r \<noteq> None"
  shows "map_of (idx (tokens (process ev e s))) r = map_of (idx (tokens s)) r"
  using assms by (auto simp: process_idx map_add_def)

lemma row_of_Transfer_idx:
  "row_of_Transfer m x =
     \<lparr>row_block = transfer_block x, row_timestamp = transfer_timestamp x,
      row_transactionHash = transfer_transactionHash x,
      row_from = owner_id (transfer_from x), row_to = owner_id (transfer_to x),
      row_token = map_of (idx m) (transfer_token x)\<rparr>"
  by (simp add: row_of_Transfer_def deref_idx)

lemma old_rows_stand:
  assumes "xfers_ok s"
  shows "map (\<lambda>x. (transfer_id x, row_of_Transfer (tokens (process ev e s)) x)) (transfers s)
    = xfer_rows s"
  unfolding xfer_rows_def
proof (rule map_cong [OF refl])
  fix x
  assume "x \<in> set (transfers s)"
  then have "map_of (idx (tokens s)) (transfer_token x) \<noteq> None"
    using assms by (simp add: xfers_ok_def list_all_iff)
  then have "map_of (idx (tokens (process ev e s))) (transfer_token x)
      = map_of (idx (tokens s)) (transfer_token x)"
    by (rule process_old_keys)
  then show "(transfer_id x, row_of_Transfer (tokens (process ev e s)) x)
      = (transfer_id x, row_of_Transfer (tokens s) x)"
    by (simp add: row_of_Transfer_idx)
qed

lemma old_transfers_stand:
  assumes "xfers_ok s"
  shows "list_all (\<lambda>x. map_of (idx (tokens (process ev e s))) (transfer_token x) \<noteq> None)
           (transfers s)"
  unfolding list_all_iff
proof
  fix x
  assume "x \<in> set (transfers s)"
  then have here: "map_of (idx (tokens s)) (transfer_token x) \<noteq> None"
    using assms by (simp add: xfers_ok_def list_all_iff)
  then show "map_of (idx (tokens (process ev e s))) (transfer_token x) \<noteq> None"
    by (simp add: process_old_keys)
qed

lemma records_iff:
  assumes "unskippable e" and "owners_ok (owners s)"
  shows "records e \<longleftrightarrow> \<not> expired ev e s \<and> toOwner_of e s \<noteq> None \<and> fromOwner_of e s \<noteq> None"
proof -
  have t: "toOwner_of e s \<noteq> None \<longleftrightarrow> truthy (ens_to e)"
    using toOwner_of_id [OF assms(2), of e] by (cases "toOwner_of e s") (auto split: if_splits)
  have f: "fromOwner_of e s \<noteq> None \<longleftrightarrow> truthy (ens_from e)"
    using fromOwner_of_id [OF assms(2), of e] by (cases "fromOwner_of e s") (auto split: if_splits)
  have "\<not> expired ev e s" if "truthy (ens_from e)"
    using assms(1) that by (rule unskippable_not_expired)
  then show ?thesis
    unfolding t f by (auto simp: records_def)
qed

lemma process_xfer_rows:
  assumes st: "unskippable e" and ok: "owners_ok (owners s)" and tk: "tokens_ok (tokens s)"
    and rf: "refs_ok s" and xf: "xfers_ok s"
  shows "xfer_rows (process ev e s) = xfer_rows s @ transfer_rows [e]"
    and "xfers_ok (process ev e s)"
proof -
  let ?s' = "process ev e s"
  have key: "map_of (idx (tokens ?s')) (token_ref_of e s) = Some (toString (ens_tokenId e))"
    using tk rf by (rule process_token_key)
  have old: "map (\<lambda>x. (transfer_id x, row_of_Transfer (tokens ?s') x)) (transfers s) = xfer_rows s"
    using xf by (rule old_rows_stand)
  have old_ok: "list_all (\<lambda>x. map_of (idx (tokens ?s')) (transfer_token x) \<noteq> None) (transfers s)"
    using xf by (rule old_transfers_stand)
  have rec: "records e \<longleftrightarrow> \<not> expired ev e s \<and> toOwner_of e s \<noteq> None \<and> fromOwner_of e s \<noteq> None"
    using st ok by (rule records_iff)
  show "xfer_rows ?s' = xfer_rows s @ transfer_rows [e]"
  proof (cases "records e")
    case False
    then have "transfers ?s' = transfers s"
      using rec by (auto simp: process_transfers split: option.splits)
    then show ?thesis
      using False old by (simp add: xfer_rows_def transfer_rows_def)
  next
    case True
    then obtain f t where f: "fromOwner_of e s = Some f" and t: "toOwner_of e s = Some t"
      and ne: "\<not> expired ev e s"
      using rec by auto
    have fid: "owner_id f = toLowerCase (or_empty (ens_from e))"
      using fromOwner_of_id [OF ok, of e] f by (simp split: if_splits)
    have tid: "owner_id t = toLowerCase (or_empty (ens_to e))"
      using toOwner_of_id [OF ok, of e] t by (simp split: if_splits)
    have tr: "transfers ?s' = transfers s @ [new_Transfer e f t (token_ref_of e s)]"
      using f t ne by (simp add: process_transfers)
    have "row_of_Transfer (tokens ?s') (new_Transfer e f t (token_ref_of e s)) = transfer_row e"
      by (simp add: row_of_Transfer_idx new_Transfer_def key fid tid transfer_row_def)
    then show ?thesis
      using True old by (simp add: xfer_rows_def tr transfer_rows_def new_Transfer_def)
  qed
  show "xfers_ok ?s'"
  proof (cases "records e")
    case False
    then have "transfers ?s' = transfers s"
      using rec by (auto simp: process_transfers split: option.splits)
    then show ?thesis
      using old_ok by (simp add: xfers_ok_def)
  next
    case True
    then obtain f t where f: "fromOwner_of e s = Some f" and t: "toOwner_of e s = Some t"
      and ne: "\<not> expired ev e s"
      using rec by auto
    have tr: "transfers ?s' = transfers s @ [new_Transfer e f t (token_ref_of e s)]"
      using f t ne by (simp add: process_transfers)
    show ?thesis
      using old_ok key by (simp add: xfers_ok_def tr new_Transfer_def)
  qed
qed

lemma transfer_rows_Cons: "transfer_rows (e # es) = transfer_rows [e] @ transfer_rows es"
  by (simp add: transfer_rows_def)

lemma reconcile_xfer_rows:
  "list_all unskippable es \<Longrightarrow> owners_ok (owners s) \<Longrightarrow> tokens_ok (tokens s) \<Longrightarrow> refs_ok s
    \<Longrightarrow> xfers_ok s \<Longrightarrow> xfer_rows (reconcile ev es s) = xfer_rows s @ transfer_rows es"
proof (induction es arbitrary: s)
  case Nil
  show ?case by (simp add: transfer_rows_def)
next
  case (Cons e es)
  have u: "unskippable e" and us: "list_all unskippable es"
    using Cons.prems(1) by simp_all
  have ok: "owners_ok (owners (process ev e s))"
    using Cons.prems(2) by (rule process_owners_ok)
  have tk: "tokens_ok (tokens (process ev e s))"
    using Cons.prems(3) by (rule process_tokens_ok)
  have rf: "refs_ok (process ev e s)"
    using Cons.prems(4) by (rule process_refs_ok)
  have xf: "xfers_ok (process ev e s)"
    using u Cons.prems(2-5) by (rule process_xfer_rows(2))
  have rows: "xfer_rows (process ev e s) = xfer_rows s @ transfer_rows [e]"
    using u Cons.prems(2-5) by (rule process_xfer_rows(1))
  have "xfer_rows (reconcile ev es (process ev e s))
      = xfer_rows (process ev e s) @ transfer_rows es"
    using us ok tk rf xf by (rule Cons.IH)
  then show ?case
    by (simp add: rows transfer_rows_Cons [of e es])
qed

section \<open>The references of the tokens a batch loads\<close>

lemma findBy_Token_refs:
  "map token_ref (fst (findBy_Token ids s))
     = map (\<lambda>i. next_ref s + 2 * i)
         [0..<length (List.map_filter (\<lambda>k. map_option (Pair k) (tbl_token s k)) ids)]"
proof -
  let ?rows = "List.map_filter (\<lambda>k. map_option (Pair k) (tbl_token s k)) ids"
  have "map token_ref (fst (findBy_Token ids s))
      = map (\<lambda>x. next_ref s + 2 * fst x) (enumerate 0 ?rows)"
    by (simp add: findBy_Token_def Let_def case_prod_beta load_Token_def comp_def)
  also have "\<dots> = map (\<lambda>i. next_ref s + 2 * i) (map fst (enumerate 0 ?rows))"
    by (simp only: map_map comp_def)
  also have "map fst (enumerate 0 ?rows) = [0..<length ?rows]"
    by simp
  finally show ?thesis .
qed

lemma preload_next_ref:
  "next_ref s + 2 * length (List.map_filter (\<lambda>k. map_option (Pair k) (tbl_token s k))
                              (fst (collect_ids es ([], []))))
     \<le> next_ref (preload es s)"
  by (simp add: preload_def case_prod_beta findBy_Token_def findBy_Owner_def Let_def)

lemma preload_refs_ok: "refs_ok (preload es s)"
proof -
  let ?ids = "fst (collect_ids es ([], []))"
  let ?n = "length (List.map_filter (\<lambda>k. map_option (Pair k) (tbl_token s k)) ?ids)"
  have refs: "map fst (idx (tokens (preload es s))) = map (\<lambda>i. next_ref s + 2 * i) [0..<?n]"
    by (simp add: idx_def preload_tokens comp_def findBy_Token_refs [symmetric])
  have d: "distinct (map fst (idx (tokens (preload es s))))"
    unfolding refs by (simp add: distinct_map inj_on_def)
  have "fst p < next_ref (preload es s)" if "p \<in> set (idx (tokens (preload es s)))" for p
  proof -
    have "fst p \<in> set (map fst (idx (tokens (preload es s))))"
      using that by simp
    then obtain i where "i < ?n" and "fst p = next_ref s + 2 * i"
      unfolding refs by auto
    then show ?thesis
      using preload_next_ref [of s es] by simp
  qed
  then show ?thesis
    using d by (simp add: refs_ok_def list_all_iff)
qed

lemma preload_xfers_ok: "xfers_ok (preload es s)"
  by (simp add: xfers_ok_def)

lemma batch_xfer_rows:
  assumes "list_all unskippable es"
  shows "xfer_rows (reconcile ev es (preload es s)) = transfer_rows es"
  using reconcile_xfer_rows [where es = es and ev = ev and s = "preload es s",
      OF assms preload_owners_ok preload_tokens_ok preload_refs_ok preload_xfers_ok]
  by (simp add: xfer_rows_def)

section \<open>The transfer table after a batch\<close>

lemma flush_tbl_transfer:
  "tbl_transfer (flush s) = fold (\<lambda>p m. m(fst p \<mapsto> snd p)) (xfer_rows s) (tbl_transfer s)"
  by (simp add: flush_def Let_def save_Owner_def save_Token_def save_Transfer_def xfer_rows_def
      fold_map comp_def)

lemma saveENSData_tbl_transfer:
  assumes "list_all unskippable es"
  shows "tbl_transfer (saveENSData ev es s)
    = fold (\<lambda>p m. m(fst p \<mapsto> snd p)) (transfer_rows es) (tbl_transfer s)"
  by (simp add: saveENSData_def flush_tbl_transfer batch_xfer_rows [OF assms] reconcile_tables)

lemma fold_upsert: "fold (\<lambda>p m. m(fst p \<mapsto> snd p)) xs m = m ++ map_of (rev xs)"
  by (induction xs arbitrary: m) (simp_all add: map_add_upd_left)

lemma fold_upsert_twice:
  "fold (\<lambda>p m. m(fst p \<mapsto> snd p)) xs (fold (\<lambda>p m. m(fst p \<mapsto> snd p)) xs m)
     = fold (\<lambda>p m. m(fst p \<mapsto> snd p)) xs m"
  by (rule ext) (simp add: fold_upsert map_add_def split: option.splits)

lemma saveENSData_transfers_twice:
  assumes "list_all unskippable es"
  shows "tbl_transfer (saveENSData ev es (saveENSData ev es s)) = tbl_transfer (saveENSData ev es s)"
  by (simp add: saveENSData_tbl_transfer [OF assms] fold_upsert_twice)

section \<open>A batch of one event\<close>

lemma flush_http_log: "http_log (flush s) = http_log s"
  by (simp add: flush_def Let_def save_Owner_def save_Token_def save_Transfer_def)

lemma saveENSData_single_http_log:
  "http_log (saveENSData ev [e] s) =
     (if truthy_num (ens_expires e) \<and> \<not> expired ev e (preload [e] s)
      then http_log s @ [tokenURI (ens_tokenId e)]
      else http_log s)"
  by (simp add: saveENSData_def flush_http_log process_http_log)

lemma saveENSData_single_date_calls:
  "date_calls (saveENSData ev [e] s) =
     (if truthy_num (ens_expires e) then Suc (date_calls s) else date_calls s)"
  by (simp add: saveENSData_def flush_date_calls process_date_calls)

lemma saveENSData_single_name:
  assumes "truthy_num (ens_expires e)" and "\<not> expired ev e (preload [e] s)"
  shows "map_option row_name (tbl_token (saveENSData ev [e] s) (toString (ens_tokenId e)))
    = Some (fst (fst (fetch_metadata ev (ens_tokenId e) (preload [e] s))))"
proof -
  obtain t where "token_of (process ev e (preload [e] s)) e
      = Some (t\<lparr>token_owner := toOwner_of e (preload [e] s),
                token_expires := Some (num_value (ens_expires e)),
                token_name := fst (fst (fetch_metadata ev (ens_tokenId e) (preload [e] s))),
                token_uri := fst (snd (fst (fetch_metadata ev (ens_tokenId e) (preload [e] s)))),
                token_imageURI := snd (snd (fst (fetch_metadata ev (ens_tokenId e) (preload [e] s))))\<rparr>)"
    using process_token_enriched [OF assms] by blast
  then have "map_option row_name (rows_of (process ev e (preload [e] s)) (toString (ens_tokenId e)))
      = Some (fst (fst (fetch_metadata ev (ens_tokenId e) (preload [e] s))))"
    by (simp add: rows_of_token_of row_of_Token_def)
  then show ?thesis
    by (auto simp: saveENSData_tbl_token split: option.splits)
qed

lemma saveENSData_single_expired_name:
  assumes "expired ev e (preload [e] s)" and "tbl_token s (toString (ens_tokenId e)) = None"
  shows "map_option row_name (tbl_token (saveENSData ev [e] s) (toString (ens_tokenId e)))
    = Some None"
proof -
  have "rows_of (preload [e] s) (toString (ens_tokenId e)) = None"
    using assms(2) by (simp add: preload_rows)
  then have none: "token_of (preload [e] s) e = None"
    by (simp add: rows_of_token_of)
  have "map_option token_name (token_of (process ev e (preload [e] s)) e) = Some None"
    using process_token_expired [OF assms(1)] by (simp add: none new_Token_def)
  then have "map_option row_name (rows_of (process ev e (preload [e] s)) (toString (ens_tokenId e)))
      = Some None"
    by (auto simp: rows_of_token_of row_of_Token_def)
  then show ?thesis
    by (auto simp: saveENSData_tbl_token split: option.splits)
qed

lemma registration_fields:
  "truthy_num (ens_expires registration)" "ens_tokenId registration = 1"
  by (simp_all add: registration_def handleNameRegistered_def)

lemma registration_built:
  "[registration] = ensDataArr_of [(sample_ctx, NameRegistered_log 1 ''0xa'' 1800000000)]"
  by (simp add: registration_def ensDataArr_of_def handle_log_def)

lemma registration_not_expired: "\<not> expired env_flaky registration s"
  by (simp add: expired_def env_flaky_def registration_def handleNameRegistered_def num_value_def)

lemma fetch_metadata_flaky:
  "fst (fetch_metadata env_flaky i s) =
     (if http_log s = [] then (Some ''a.eth'', Some ''url'', Some ''img'')
      else (Some [], Some [], Some []))"
  by (simp add: fetch_metadata_fst env_flaky_def)

lemma backward_expired: "date_calls s = 0 \<Longrightarrow> expired env_backward registration s"
  by (simp add: expired_def env_backward_def registration_def handleNameRegistered_def num_value_def)

lemma backward_not_expired: "date_calls s \<noteq> 0 \<Longrightarrow> \<not> expired env_backward registration s"
  by (simp add: expired_def env_backward_def registration_def handleNameRegistered_def num_value_def)

lemma fetch_metadata_backward:
  "fst (fetch_metadata env_backward i s) = (Some ''a.eth'', Some ''url'', Some ''img'')"
  by (simp add: fetch_metadata_fst env_backward_def)

section \<open>The same batch twice\<close>

lemma ensDataArr_unskippable: "list_all unskippable (ensDataArr_of items)"
  by (simp add: ensDataArr_of_def list_all_iff handle_log_unskippable)

text \<open>
  Claim C7, as amended.  Let the batch be built by the handlers from any logs.  When the
  metadata service answers a request for a given address alike throughout both runs, and
  the clock never goes back from one reading to the next, processing the batch again
  against the store the first run left gives the same five tables as the first run:
  owners, tokens, transfers and the two contract tables.
\<close>

theorem same_batch_twice_same_tables:
  assumes "same_answers ev" and "clock_forward ev"
  shows "persisted (saveENSData ev (ensDataArr_of items) (saveENSData ev (ensDataArr_of items) s))
    = persisted (saveENSData ev (ensDataArr_of items) s)"
  using saveENSData_contracts_twice [OF assms(1), of "ensDataArr_of items" s]
  by (simp add: persisted_def saveENSData_owners_twice saveENSData_tokens_twice [OF assms]
      saveENSData_transfers_twice [OF ensDataArr_unskippable])

theorem same_batch_twice_witness:
  "same_answers env_ticking \<and> clock_forward env_ticking
   \<and> persisted (saveENSData env_ticking (ensDataArr_of sample_logs)
                  (saveENSData env_ticking (ensDataArr_of sample_logs) empty_state))
       = persisted (saveENSData env_ticking (ensDataArr_of sample_logs) empty_state)"
  using same_batch_twice_same_tables [of env_ticking sample_logs empty_state]
  by (simp add: same_answers_def clock_forward_def env_ticking_def)

text \<open>
  Claim C7, as stated, fails when the metadata service answers the first run and not the
  second, under a clock that stands: the registration of token 1 leaves the name \<open>a.eth\<close>
  after one run and the empty string after two.
\<close>

theorem second_run_overwrites_name:
  "[registration] = ensDataArr_of [(sample_ctx, NameRegistered_log 1 ''0xa'' 1800000000)]
   \<and> clock_forward env_flaky
   \<and> map_option row_name (tbl_token (saveENSData env_flaky [registration] empty_state) ''1'')
     = Some (Some ''a.eth'')
   \<and> map_option row_name
       (tbl_token (saveENSData env_flaky [registration]
                     (saveENSData env_flaky [registration] empty_state)) ''1'')
     = Some (Some [])
   \<and> persisted (saveENSData env_flaky [registration]
                  (saveENSData env_flaky [registration] empty_state))
     \<noteq> persisted (saveENSData env_flaky [registration] empty_state)"
proof -
  let ?s1 = "saveENSData env_flaky [registration] empty_state"
  let ?s2 = "saveENSData env_flaky [registration] ?s1"
  have clock: "clock_forward env_flaky"
    by (simp add: clock_forward_def env_flaky_def)
  have log1: "http_log ?s1 = [tokenURI 1]"
    by (simp add: saveENSData_single_http_log registration_fields registration_not_expired
        empty_state_def)
  have "map_option row_name (tbl_token ?s1 (toString (ens_tokenId registration)))
      = Some (fst (fst (fetch_metadata env_flaky (ens_tokenId registration)
                          (preload [registration] empty_state))))"
    by (rule saveENSData_single_name) (simp_all add: registration_fields registration_not_expired)
  then have n1: "map_option row_name (tbl_token ?s1 ''1'') = Some (Some ''a.eth'')"
    by (simp add: registration_fields toString_1 fetch_metadata_flaky empty_state_def)
  have "map_option row_name (tbl_token ?s2 (toString (ens_tokenId registration)))
      = Some (fst (fst (fetch_metadata env_flaky (ens_tokenId registration)
                          (preload [registration] ?s1))))"
    by (rule saveENSData_single_name) (simp_all add: registration_fields registration_not_expired)
  then have n2: "map_option row_name (tbl_token ?s2 ''1'') = Some (Some [])"
    by (simp add: registration_fields toString_1 fetch_metadata_flaky log1)
  have "tbl_token ?s2 \<noteq> tbl_token ?s1"
    using n1 n2 by auto
  then have "persisted ?s2 \<noteq> persisted ?s1"
    by (simp add: persisted_def)
  with n1 n2 clock registration_built show ?thesis
    by simp
qed

text \<open>
  The two runs also differ when the service answers alike and the clock goes back: the
  registration of token 1 has expired at the reading of the first run, which leaves no
  name, and has not at the reading of the second, which fetches the name \<open>a.eth\<close>.
\<close>

lemma backward_clock_changes_name:
  "same_answers env_backward
   \<and> map_option row_name (tbl_token (saveENSData env_backward [registration] empty_state) ''1'')
     = Some None
   \<and> map_option row_name
       (tbl_token (saveENSData env_backward [registration]
                     (saveENSData env_backward [registration] empty_state)) ''1'')
     = Some (Some ''a.eth'')
   \<and> persisted (saveENSData env_backward [registration]
                  (saveENSData env_backward [registration] empty_state))
     \<noteq> persisted (saveENSData env_backward [registration] empty_state)"
proof -
  let ?s1 = "saveENSData env_backward [registration] empty_state"
  let ?s2 = "saveENSData env_backward [registration] ?s1"
  have same: "same_answers env_backward"
    by (simp add: same_answers_def env_backward_def)
  have d0: "date_calls (preload [registration] empty_state) = 0"
    by (simp add: empty_state_def)
  have d1: "date_calls (preload [registration] ?s1) \<noteq> 0"
    by (simp add: saveENSData_single_date_calls registration_fields)
  have e0: "expired env_backward registration (preload [registration] empty_state)"
    using d0 by (rule backward_expired)
  have t0: "tbl_token empty_state (toString (ens_tokenId registration)) = None"
    by (simp add: empty_state_def)
  have "map_option row_name (tbl_token ?s1 (toString (ens_tokenId registration))) = Some None"
    using e0 t0 by (rule saveENSData_single_expired_name)
  then have n1: "map_option row_name (tbl_token ?s1 ''1'') = Some None"
    by (simp add: registration_fields toString_1)
  have "map_option row_name (tbl_token ?s2 (toString (ens_tokenId registration)))
      = Some (fst (fst (fetch_metadata env_backward (ens_tokenId registration)
                          (preload [registration] ?s1))))"
    by (rule saveENSData_single_name)
      (simp_all add: registration_fields backward_not_expired [OF d1])
  then have n2: "map_option row_name (tbl_token ?s2 ''1'') = Some (Some ''a.eth'')"
    by (simp add: registration_fields toString_1 fetch_metadata_backward)
  have "tbl_token ?s2 \<noteq> tbl_token ?s1"
    using n1 n2 by auto
  then have "persisted ?s2 \<noteq> persisted ?s1"
    by (simp add: persisted_def)
  with n1 n2 same show ?thesis
    by simp
qed

end
